theory Spec2Isabelle
  imports Complex_Main "HOL-Library.Monad_Syntax"
begin

chapter \<open>Corn Maze Tycoon: the carving rule, the path finder and the decision engine\<close>

text \<open>
  A shallow embedding of \<open>src/index.js\<close> (class \<open>CornMazeGame\<close>: \<open>canPlow\<close>,
  \<open>handleMovement\<close>, \<open>findShortestPath\<close>, \<open>findLongestPath\<close>) and of the tiered class of
  \<open>src/AIBrain.js\<close> (\<open>decideNextMove\<close> and the rule blocks it runs).

  Conventions. Grid coordinates, cell values, scores and visit counts are JavaScript
  numbers that only ever hold integers: they are \<open>int\<close>. Block weights, the results of
  \<open>Math.random()\<close> and Euclidean distances are \<open>real\<close>. \<open>null\<close> and \<open>undefined\<close> are \<open>None\<close>.
  A function whose source may loop forever returns an \<open>option\<close>, and \<open>None\<close> is the call
  that does not return.
\<close>

section \<open>Data model\<close>

text \<open>
  Positions are pairs \<open>(x, y)\<close> of JavaScript integers. A cell of the grid holds
  \<open>0\<close> (corn) or \<open>1\<close> (dirt, plowed); \<open>grid[y][x]\<close> is row \<open>y\<close>, column \<open>x\<close>.
  The game object of \<open>index.js\<close> is also the \<open>maze\<close> argument of the brain
  (\<open>Player\<close> passes \<open>this.game\<close>), so one record serves both.
\<close>

type_synonym pos = "int \<times> int"

datatype direction = DUp | DRight | DDown | DLeft

record game =
  width :: int
  height :: int
  grid :: "int list list"
  tractorPosition :: pos
  tractorDirection :: direction
  startPosition :: "pos option"
  finishPosition :: "pos option"
  gameMode :: string
  isMoving :: bool
  keys :: "(string \<times> bool) list"

text \<open>
  \<open>grid[y][x]\<close>: \<open>None\<close> stands for a read outside the arrays (\<open>undefined\<close>, or a
  TypeError when the row itself is missing). Under the hypotheses of the theorems below
  (a well-formed grid, the positions inside it) every read the source makes is inside the
  arrays.
\<close>

definition cellAt :: "int list list \<Rightarrow> int \<Rightarrow> int \<Rightarrow> int option" where
  "cellAt gr x y =
     (if 0 \<le> y \<and> nat y < length gr \<and> 0 \<le> x \<and> nat x < length (gr ! nat y)
      then Some (gr ! nat y ! nat x) else None)"

text \<open>\<open>grid[y][x] = v\<close> for an index inside the arrays (the only writes the source makes).\<close>

definition setCell :: "int list list \<Rightarrow> int \<Rightarrow> int \<Rightarrow> int \<Rightarrow> int list list" where
  "setCell gr x y v = gr[nat y := (gr ! nat y)[nat x := v]]"

definition inBounds :: "('a game_scheme) \<Rightarrow> int \<Rightarrow> int \<Rightarrow> bool" where
  "inBounds g x y = (x \<ge> 0 \<and> x < width g \<and> y \<ge> 0 \<and> y < height g)"

text \<open>The shape the constructor and \<open>reset\<close> build: \<open>height\<close> rows of \<open>width\<close> cells.\<close>

definition wfGrid :: "('a game_scheme) \<Rightarrow> bool" where
  "wfGrid g = (0 < width g \<and> 0 < height g \<and> int (length (grid g)) = height g \<and>
               list_all (\<lambda>row. int (length row) = width g) (grid g))"

section \<open>Grid model (\<open>index.js\<close>)\<close>

definition isOnPerimeter :: "('a game_scheme) \<Rightarrow> int \<Rightarrow> int \<Rightarrow> bool" where
  "isOnPerimeter g x y = (x = 0 \<or> x = width g - 1 \<or> y = 0 \<or> y = height g - 1)"

text \<open>The cells in the order of the two nested loops: rows outside, columns inside.\<close>

definition allCells :: "('a game_scheme) \<Rightarrow> pos list" where
  "allCells g = concat (map (\<lambda>y. map (\<lambda>x. (x, y)) [0..width g - 1]) [0..height g - 1])"

definition countPlowedPerimeterSquares :: "('a game_scheme) \<Rightarrow> nat" where
  "countPlowedPerimeterSquares g =
     length (filter (\<lambda>(x, y). isOnPerimeter g x y \<and> cellAt (grid g) x y = Some 1) (allCells g))"

text \<open>
  The local closure \<open>check2x2Block\<close> of \<open>canPlow\<close>; \<open>(x, y)\<close> is the cell being plowed,
  which the closure captures.
\<close>

definition check2x2Block :: "('a game_scheme) \<Rightarrow> int \<Rightarrow> int \<Rightarrow> int \<Rightarrow> int \<Rightarrow> int \<Rightarrow> int \<Rightarrow> bool" where
  "check2x2Block g x y x1 y1 x2 y2 =
     (if x1 < 0 \<or> y1 < 0 \<or> x2 \<ge> width g \<or> y2 \<ge> height g then True
      else
        let plowedCount =
              length (filter (\<lambda>(checkX, checkY).
                          cellAt (grid g) checkX checkY = Some 1 \<or> (checkX = x \<and> checkY = y))
                        (concat (map (\<lambda>checkY. map (\<lambda>checkX. (checkX, checkY)) [x1..x2]) [y1..y2])))
        in plowedCount < 4)"

definition canPlow :: "('a game_scheme) \<Rightarrow> int \<Rightarrow> int \<Rightarrow> bool" where
  "canPlow g x y =
     (if cellAt (grid g) x y = Some 1 then True
      else if isOnPerimeter g x y \<and> countPlowedPerimeterSquares g \<ge> 2 then False
      else check2x2Block g x y (x - 1) (y - 1) x y \<and>
           check2x2Block g x y x (y - 1) (x + 1) y \<and>
           check2x2Block g x y (x - 1) y x (y + 1) \<and>
           check2x2Block g x y x y (x + 1) (y + 1))"

text \<open>The write \<open>this.grid[newY][newX] = 1\<close> of \<open>handleMovement\<close>: the carve.\<close>

definition plow :: "game \<Rightarrow> int \<Rightarrow> int \<Rightarrow> game" where
  "plow g x y = g\<lparr>grid := setCell (grid g) x y 1\<rparr>"

text \<open>\<open>this.keys[k]\<close>: a key that was never pressed reads as \<open>undefined\<close>, which is falsy.\<close>

definition keyDown :: "(string \<times> bool) list \<Rightarrow> string \<Rightarrow> bool" where
  "keyDown ks k = (case map_of ks k of Some b \<Rightarrow> b | None \<Rightarrow> False)"

text \<open>
  \<open>handleMovement\<close>, as a function from the game before the call to the game after it.
  Rendering, the undo history and local storage are left out: they do not change the
  fields modelled here. The timer that clears \<open>isMoving\<close> 200 ms later is a separate
  event; the call itself leaves the flag set.

  \<open>movementTarget\<close> is the first half of the body: the chain of key tests that sets
  \<open>newX\<close>, \<open>newY\<close> and \<open>direction\<close>.
\<close>

definition movementTarget :: "game \<Rightarrow> int \<times> int \<times> direction option" where
  "movementTarget g =
     (let (tx, ty) = tractorPosition g in
      if keyDown (keys g) ''arrowup'' \<or> keyDown (keys g) ''w''
        then (tx, max 0 (ty - 1), Some DUp)
      else if keyDown (keys g) ''arrowdown'' \<or> keyDown (keys g) ''s''
        then (tx, min (height g - 1) (ty + 1), Some DDown)
      else if keyDown (keys g) ''arrowleft'' \<or> keyDown (keys g) ''a''
        then (max 0 (tx - 1), ty, Some DLeft)
      else if keyDown (keys g) ''arrowright'' \<or> keyDown (keys g) ''d''
        then (min (width g - 1) (tx + 1), ty, Some DRight)
      else (tx, ty, None))"

definition handleMovement :: "game \<Rightarrow> game" where
  "handleMovement g =
     (if gameMode g = ''player'' \<or> isMoving g then g
      else
        let (tx, ty) = tractorPosition g;
            (newX, newY, dir) = movementTarget g
        in
          if (newX \<noteq> tx \<or> newY \<noteq> ty) \<and> canPlow g newX newY then
            let g1 = (case dir of Some d \<Rightarrow> g\<lparr>tractorDirection := d\<rparr> | None \<Rightarrow> g);
                g2 = g1\<lparr>tractorPosition := (newX, newY)\<rparr>;
                g3 = plow g2 newX newY;
                g4 = (if isOnPerimeter g3 newX newY then
                        (if startPosition g3 = None then g3\<lparr>startPosition := Some (newX, newY)\<rparr>
                         else if finishPosition g3 = None then g3\<lparr>finishPosition := Some (newX, newY)\<rparr>
                         else g3)
                      else g3)
            in g4\<lparr>isMoving := True\<rparr>
          else g)"

text \<open>
  The constructor without a saved maze, and \<open>reset\<close>: every cell corn, the tractor in the
  middle on a plowed cell. The settings panel clamps both sizes to 7..30; for a size
  below 1 the source either throws or grows a row beyond \<open>width\<close>, which is given as
  \<open>None\<close> here.
\<close>

definition newGame :: "int \<Rightarrow> int \<Rightarrow> game option" where
  "newGame w h =
     (if w < 1 \<or> h < 1 then None
      else Some \<lparr> width = w, height = h,
                  grid = setCell (replicate (nat h) (replicate (nat w) 0)) (w div 2) (h div 2) 1,
                  tractorPosition = (w div 2, h div 2),
                  tractorDirection = DRight,
                  startPosition = None, finishPosition = None,
                  gameMode = ''farmer'', isMoving = False, keys = [] \<rparr>)"

text \<open>
  The games reachable from a fresh one by calls of \<open>handleMovement\<close>. Between two
  calls the key handlers, the 200 ms timer and the mode toggle may set \<open>keys\<close>,
  \<open>isMoving\<close> and \<open>gameMode\<close> to anything; they touch no other field.
\<close>

inductive carved :: "int \<Rightarrow> int \<Rightarrow> game \<Rightarrow> bool" for w h where
  carved_new: "newGame w h = Some g \<Longrightarrow> carved w h g"
| carved_move: "carved w h g \<Longrightarrow>
     carved w h (handleMovement (g\<lparr>keys := ks, isMoving := mv, gameMode := gm\<rparr>))"

text \<open>The two properties of the spec, stated on the cells themselves.\<close>

definition isOpen :: "('a game_scheme) \<Rightarrow> int \<Rightarrow> int \<Rightarrow> bool" where
  "isOpen g x y = (cellAt (grid g) x y = Some 1)"

definition no2x2Open :: "('a game_scheme) \<Rightarrow> bool" where
  "no2x2Open g = (\<forall>x\<in>{0..width g - 2}. \<forall>y\<in>{0..height g - 2}.
       \<not> (isOpen g x y \<and> isOpen g (x + 1) y \<and> isOpen g x (y + 1) \<and> isOpen g (x + 1) (y + 1)))"

definition openPerimeter :: "('a game_scheme) \<Rightarrow> pos set" where
  "openPerimeter g = set (filter (\<lambda>(x, y). isOnPerimeter g x y \<and> isOpen g x y) (allCells g))"

definition perimeterOk :: "('a game_scheme) \<Rightarrow> bool" where
  "perimeterOk g = (card (openPerimeter g) \<le> 2)"

text \<open>What every reachable game satisfies; the tractor stays inside the grid.\<close>

definition gridInv :: "game \<Rightarrow> bool" where
  "gridInv g = (wfGrid g \<and> inBounds g (fst (tractorPosition g)) (snd (tractorPosition g)) \<and>
                no2x2Open g \<and> perimeterOk g)"

text \<open>The fresh 3x3 game, as the constructor builds it.\<close>

definition fresh3 :: game where
  "fresh3 = \<lparr> width = 3, height = 3, grid = [[0,0,0],[0,1,0],[0,0,0]],
                  tractorPosition = (1, 1), tractorDirection = DRight, startPosition = None,
                  finishPosition = None, gameMode = ''farmer'', isMoving = False, keys = [] \<rparr>"

text \<open>The list of all cells names every cell of the grid once.\<close>

lemma concat_rows_product:
  "concat (map (\<lambda>y. map (\<lambda>x. (x, y)) xs) ys) = map prod.swap (List.product ys xs)"
  by (induction ys) (simp_all add: comp_def)

lemma distinct_allCells: "distinct (allCells g)"
  unfolding allCells_def concat_rows_product
  by (simp add: distinct_map distinct_product inj_on_def)

lemma set_allCells: "set (allCells g) = {(x, y). inBounds g x y}"
  by (auto simp: allCells_def inBounds_def)


section \<open>Path finder\<close>

text \<open>
  \<open>findShortestPath\<close> exists twice with the same body: in \<open>index.js\<close> on the game's own
  \<open>startPosition\<close> and \<open>finishPosition\<close>, and in \<open>AIBrain.js\<close> on the arguments
  \<open>start\<close>, \<open>finish\<close>, \<open>maze\<close>. The keys \<open>`${x},${y}`\<close> of the \<open>Set\<close> and the \<open>Map\<close> are
  modelled by the pairs \<open>(x, y)\<close>; the \<open>Set\<close> is a set, the \<open>Map\<close> a partial function.
\<close>

definition bfsDirections :: "(int \<times> int) list" where
  "bfsDirections = [(0, 1), (1, 0), (0, -1), (-1, 0)]"

text \<open>
  The loop \<open>while (current) { path.unshift(current); current = parent.get(current) }\<close>.
  Nothing in the loop itself bounds it: on a cyclic \<open>parent\<close> map it runs forever, which
  is the value \<open>None\<close> here.
\<close>

partial_function (option) reconstructPath :: "(pos \<rightharpoonup> pos) \<Rightarrow> pos \<Rightarrow> pos list \<Rightarrow> pos list option" where
  "reconstructPath parent current path =
     (case parent current of
        None \<Rightarrow> Some (current # path)
      | Some p \<Rightarrow> reconstructPath parent p (current # path))"

text \<open>One pass of the \<open>for\<close> loop over the four neighbours of the dequeued cell.\<close>

definition bfsVisit :: "('a game_scheme) \<Rightarrow> pos \<Rightarrow> int \<times> int \<Rightarrow>
    pos list \<times> pos set \<times> (pos \<rightharpoonup> pos) \<Rightarrow> pos list \<times> pos set \<times> (pos \<rightharpoonup> pos)" where
  "bfsVisit maze c d s =
     (case (c, d, s) of ((x, y), (dx, dy), (queue, visited, parent)) \<Rightarrow>
        let nx = x + dx; ny = y + dy in
        if nx \<ge> 0 \<and> nx < width maze \<and> ny \<ge> 0 \<and> ny < height maze \<and>
           cellAt (grid maze) nx ny = Some 1 \<and> (nx, ny) \<notin> visited
        then (queue @ [(nx, ny)], insert (nx, ny) visited, parent((nx, ny) \<mapsto> (x, y)))
        else (queue, visited, parent))"

definition bfsExpand :: "('a game_scheme) \<Rightarrow> pos \<Rightarrow>
    pos list \<times> pos set \<times> (pos \<rightharpoonup> pos) \<Rightarrow> pos list \<times> pos set \<times> (pos \<rightharpoonup> pos)" where
  "bfsExpand maze c s = fold (bfsVisit maze c) bfsDirections s"

text \<open>The cells of the grid that are not in \<open>visited\<close> yet: what the search can still add.\<close>

definition unvisitedCells :: "('a game_scheme) \<Rightarrow> pos set \<Rightarrow> pos set" where
  "unvisitedCells maze visited = set (allCells maze) - visited"

lemma bfsVisit_measure:
  assumes "bfsVisit maze c d (q, v, p) = (q', v', p')"
  shows "2 * card (unvisitedCells maze v') + length q' \<le> 2 * card (unvisitedCells maze v) + length q"
proof (cases "(q', v', p') = (q, v, p)")
  case True
  then show ?thesis by simp
next
  case False
  obtain x y dx dy where c: "c = (x, y)" and d: "d = (dx, dy)" by (cases c, cases d) auto
  from False assms have n: "x + dx \<ge> 0" "x + dx < width maze" "y + dy \<ge> 0" "y + dy < height maze"
      "(x + dx, y + dy) \<notin> v"
    and r: "q' = q @ [(x + dx, y + dy)]" "v' = insert (x + dx, y + dy) v"
    by (auto simp: bfsVisit_def c d Let_def split: if_splits)
  have m: "(x + dx, y + dy) \<in> unvisitedCells maze v"
    using n by (simp add: unvisitedCells_def set_allCells inBounds_def)
  have "unvisitedCells maze v' = unvisitedCells maze v - {(x + dx, y + dy)}"
    by (auto simp: unvisitedCells_def r)
  then have "card (unvisitedCells maze v') = card (unvisitedCells maze v) - 1"
    using m by (simp add: unvisitedCells_def)
  moreover have "card (unvisitedCells maze v) > 0"
    using m by (auto simp: card_gt_0_iff unvisitedCells_def)
  ultimately show ?thesis by (simp add: r)
qed

lemma bfsFold_measure:
  assumes "fold (bfsVisit maze c) ds (q, v, p) = (q', v', p')"
  shows "2 * card (unvisitedCells maze v') + length q' \<le> 2 * card (unvisitedCells maze v) + length q"
  using assms
proof (induction ds arbitrary: q v p)
  case Nil
  then show ?case by simp
next
  case (Cons d ds)
  obtain q1 v1 p1 where s: "bfsVisit maze c d (q, v, p) = (q1, v1, p1)"
    by (cases "bfsVisit maze c d (q, v, p)") auto
  from Cons.prems have "fold (bfsVisit maze c) ds (q1, v1, p1) = (q', v', p')" by (simp add: s)
  from Cons.IH [OF this] bfsVisit_measure [OF s] show ?case by linarith
qed

text \<open>
  The \<open>while (queue.length > 0)\<close> loop. \<open>Some None\<close> is \<open>return null\<close>, \<open>Some (Some path)\<close> a
  returned path, \<open>None\<close> a path reconstruction that does not return.
\<close>

function bfsLoop :: "('a game_scheme) \<Rightarrow> pos \<Rightarrow> pos list \<Rightarrow> pos set \<Rightarrow> (pos \<rightharpoonup> pos) \<Rightarrow>
    pos list option option" where
  "bfsLoop maze finish [] visited parent = Some None"
| "bfsLoop maze finish (c # queue) visited parent =
     (if c = finish then map_option Some (reconstructPath parent c [])
      else case bfsExpand maze c (queue, visited, parent) of
             (queue', visited', parent') \<Rightarrow> bfsLoop maze finish queue' visited' parent')"
  by pat_completeness auto
termination
proof (relation "measure (\<lambda>(maze, finish, queue, visited, parent).
                    2 * card (unvisitedCells maze visited) + length queue)", goal_cases)
  case 1
  then show ?case by simp
next
  case (2 maze finish c queue visited parent queue' r visited' parent')
  then have "fold (bfsVisit maze c) bfsDirections (queue, visited, parent) = (queue', visited', parent')"
    by (simp add: bfsExpand_def)
  from bfsFold_measure [OF this] show ?case by simp
qed

text \<open>\<open>findShortestPath(start, finish, maze)\<close> of \<open>AIBrain.js\<close>; \<open>start\<close> is never null there.\<close>

definition brainFindShortestPath :: "pos \<Rightarrow> pos option \<Rightarrow> ('a game_scheme) \<Rightarrow> pos list option option" where
  "brainFindShortestPath start finish maze =
     (case finish of
        None \<Rightarrow> Some None
      | Some f \<Rightarrow> bfsLoop maze f [start] {start} Map.empty)"

text \<open>\<open>findShortestPath()\<close> of \<open>index.js\<close>.\<close>

definition findShortestPath :: "('a game_scheme) \<Rightarrow> pos list option option" where
  "findShortestPath g =
     (case (startPosition g, finishPosition g) of
        (Some s, Some f) \<Rightarrow> bfsLoop g f [s] {s} Map.empty
      | _ \<Rightarrow> Some None)"

text \<open>
  \<open>findLongestPath()\<close> of \<open>index.js\<close>. The closure \<open>dfs\<close> adds a key to the shared
  \<open>visited\<close> set before it recurses and deletes it afterwards, and pushes and pops the
  shared \<open>path\<close> the same way; the guard has checked that the key was absent, so on return
  both are what they were. The model passes the extended set and path down instead.
  The result is the list of paths the call appends to \<open>allPaths\<close>, in order.
\<close>

function dfs :: "('a game_scheme) \<Rightarrow> pos \<Rightarrow> pos set \<Rightarrow> pos \<Rightarrow> pos list \<Rightarrow> pos list list" where
  "dfs g finish visited c path =
     (if c = finish then [path]
      else concat (map (\<lambda>d.
             let nx = fst c + fst d; ny = snd c + snd d in
             if nx \<ge> 0 \<and> nx < width g \<and> ny \<ge> 0 \<and> ny < height g \<and>
                cellAt (grid g) nx ny = Some 1 \<and> (nx, ny) \<notin> visited
             then dfs g finish (insert (nx, ny) visited) (nx, ny) (path @ [(nx, ny)])
             else []) bfsDirections))"
  by pat_completeness auto
termination
proof (relation "measure (\<lambda>(g, finish, visited, c, path). card (unvisitedCells g visited))", goal_cases)
  case 1
  then show ?case by simp
next
  case (2 g finish visited c path d nx ny)
  then have m: "(nx, ny) \<in> unvisitedCells g visited"
    by (simp add: unvisitedCells_def set_allCells inBounds_def)
  have "unvisitedCells g (insert (nx, ny) visited) = unvisitedCells g visited - {(nx, ny)}"
    by (auto simp: unvisitedCells_def)
  moreover have "card (unvisitedCells g visited) > 0"
    using m by (auto simp: card_gt_0_iff unvisitedCells_def)
  ultimately show ?case using m by (simp add: unvisitedCells_def)
qed

declare dfs.simps [simp del]

definition findLongestPath :: "('a game_scheme) \<Rightarrow> pos list option" where
  "findLongestPath g =
     (case (startPosition g, finishPosition g) of
        (Some s, Some f) \<Rightarrow>
          let allPaths = dfs g f {s} s [s] in
          if allPaths = [] then None
          else Some (foldl (\<lambda>longest current. if length current > length longest then current else longest)
                       (hd allPaths) (tl allPaths))
      | _ \<Rightarrow> None)"

text \<open>
  What the spec calls an open-cell path: a non-empty sequence of open cells of the grid,
  each next to the one before it (4-connected).
\<close>

definition adjacent :: "pos \<Rightarrow> pos \<Rightarrow> bool" where
  "adjacent a b = (\<bar>fst a - fst b\<bar> + \<bar>snd a - snd b\<bar> = 1)"

definition openCell :: "('a game_scheme) \<Rightarrow> pos \<Rightarrow> bool" where
  "openCell g c = (inBounds g (fst c) (snd c) \<and> isOpen g (fst c) (snd c))"

fun openPath :: "('a game_scheme) \<Rightarrow> pos list \<Rightarrow> bool" where
  "openPath g [] = False"
| "openPath g [c] = openCell g c"
| "openPath g (c # d # cs) = (openCell g c \<and> adjacent c d \<and> openPath g (d # cs))"

definition joins :: "('a game_scheme) \<Rightarrow> pos \<Rightarrow> pos \<Rightarrow> pos list \<Rightarrow> bool" where
  "joins g s f p = (openPath g p \<and> hd p = s \<and> last p = f)"


section \<open>Move generator and rule blocks (\<open>AIBrain.js\<close>, the tiered class)\<close>

text \<open>A move is the object \<open>{x, y, direction}\<close> that \<open>getPossibleMoves\<close> builds.\<close>

datatype move = Move (mx: int) (my: int) (mdir: direction)

text \<open>
  A rule block \<open>{type, weight, mode?}\<close>. The type stays a string, as the source
  dispatches on it with a \<open>default\<close> branch for unknown kinds. A tier is its \<open>blocks\<close>
  array.
\<close>

record block =
  blockType :: string
  weight :: real
  mode :: "string option"

type_synonym tier = "block list"

record player =
  position :: pos
  isActive :: bool
  isFinished :: bool
  isRemoved :: bool

text \<open>
  The thought glyphs, by name: left arrow, right arrow, exclamation mark, compass, map,
  brain, question mark, heart, peeking face, dice. A joined thought is the list of its
  glyphs.
\<close>

datatype emote = ArrowLeft | ArrowRight | Exclaim | Compass | MapGlyph | Brain | Question
  | Heart | Peek | Dice

datatype blockResult = BlockResult (moves: "move list") (thought: "emote option")

datatype decision = Decision (decidedMove: "move option") (decidedThought: "emote list option")

text \<open>
  The arguments that \<open>decideNextMove\<close> hands on to every block, in one record:
  \<open>currentPos\<close>, \<open>visited\<close>, \<open>visitCounts\<close>, \<open>maze\<close>, \<open>finish\<close>, \<open>lastDirection\<close>, \<open>allPlayers\<close>,
  \<open>currentPlayerIndex\<close> (\<open>start\<close> is never read). \<open>visitCounts.get(key) || 0\<close> reads
  a missing key as 0.
\<close>

record ctx =
  cPos :: pos
  cVisited :: "pos set"
  cVisitCounts :: "pos \<rightharpoonup> int"
  cMaze :: game
  cFinish :: "pos option"
  cLastDirection :: "direction option"
  cAllPlayers :: "player list"
  cPlayerIndex :: int

text \<open>
  \<open>Math.max(...xs)\<close> and \<open>Math.min(...xs)\<close>: on an empty array they are \<open>-Infinity\<close> and
  \<open>Infinity\<close>.
\<close>

datatype 'a jsnum = NegInfinity | Num 'a | Infinity

fun jsLess :: "('a::linorder) jsnum \<Rightarrow> 'a jsnum \<Rightarrow> bool" where
  "jsLess (Num a) (Num b) = (a < b)"
| "jsLess NegInfinity NegInfinity = False"
| "jsLess NegInfinity _ = True"
| "jsLess Infinity _ = False"
| "jsLess (Num a) Infinity = True"
| "jsLess (Num a) NegInfinity = False"

definition mathMax :: "('a::linorder) list \<Rightarrow> 'a jsnum" where
  "mathMax xs = (if xs = [] then NegInfinity else Num (Max (set xs)))"

definition mathMin :: "('a::linorder) list \<Rightarrow> 'a jsnum" where
  "mathMin xs = (if xs = [] then Infinity else Num (Min (set xs)))"

definition moveDirections :: "(int \<times> int \<times> direction) list" where
  "moveDirections = [(0, -1, DUp), (1, 0, DRight), (0, 1, DDown), (-1, 0, DLeft)]"

definition getPossibleMoves :: "pos \<Rightarrow> ('a game_scheme) \<Rightarrow> move list" where
  "getPossibleMoves p maze =
     filter (\<lambda>newPos. mx newPos \<ge> 0 \<and> mx newPos < width maze \<and>
                      my newPos \<ge> 0 \<and> my newPos < height maze \<and>
                      cellAt (grid maze) (mx newPos) (my newPos) = Some 1)
       (map (\<lambda>(dx, dy, name). Move (fst p + dx) (snd p + dy) name) moveDirections)"

fun oppositeDir :: "direction \<Rightarrow> direction" where
  "oppositeDir DUp = DDown"
| "oppositeDir DDown = DUp"
| "oppositeDir DLeft = DRight"
| "oppositeDir DRight = DLeft"

text \<open>The tables of \<open>getTurnType\<close>.\<close>

fun rightTurns :: "direction \<Rightarrow> direction" where
  "rightTurns DUp = DRight"
| "rightTurns DRight = DDown"
| "rightTurns DDown = DLeft"
| "rightTurns DLeft = DUp"

fun leftTurns :: "direction \<Rightarrow> direction" where
  "leftTurns DUp = DLeft"
| "leftTurns DLeft = DDown"
| "leftTurns DDown = DRight"
| "leftTurns DRight = DUp"

fun backTurns :: "direction \<Rightarrow> direction" where
  "backTurns DUp = DDown"
| "backTurns DDown = DUp"
| "backTurns DLeft = DRight"
| "backTurns DRight = DLeft"

definition getTurnType :: "direction \<Rightarrow> direction \<Rightarrow> string" where
  "getTurnType fromDir toDir =
     (if fromDir = toDir then ''straight''
      else if rightTurns fromDir = toDir then ''right''
      else if leftTurns fromDir = toDir then ''left''
      else if backTurns fromDir = toDir then ''back''
      else ''straight'')"

text \<open>The tables of \<open>scoreWallFollowing\<close>.\<close>

fun rightPriority :: "direction \<Rightarrow> direction list" where
  "rightPriority DUp = [DRight, DUp, DLeft, DDown]"
| "rightPriority DRight = [DDown, DRight, DUp, DLeft]"
| "rightPriority DDown = [DLeft, DDown, DRight, DUp]"
| "rightPriority DLeft = [DUp, DLeft, DDown, DRight]"

fun leftPriority :: "direction \<Rightarrow> direction list" where
  "leftPriority DUp = [DLeft, DUp, DRight, DDown]"
| "leftPriority DRight = [DUp, DRight, DDown, DLeft]"
| "leftPriority DDown = [DRight, DDown, DLeft, DUp]"
| "leftPriority DLeft = [DDown, DLeft, DUp, DRight]"

text \<open>\<open>Array.prototype.indexOf\<close>: the first index of the element, \<open>-1\<close> when absent.\<close>

fun indexOf :: "'a list \<Rightarrow> 'a \<Rightarrow> int" where
  "indexOf [] a = -1"
| "indexOf (x # xs) a = (if x = a then 0 else let i = indexOf xs a in if i < 0 then -1 else i + 1)"

text \<open>\<open>block.mode || d\<close>: a missing or empty mode is falsy.\<close>

definition modeOr :: "string option \<Rightarrow> string \<Rightarrow> string" where
  "modeOr m d = (case m of None \<Rightarrow> d | Some s \<Rightarrow> if s = [] then d else s)"

text \<open>\<open>scoreWallFollowing(currentPos, move, lastDirection, mode)\<close>; \<open>currentPos\<close> is unused.\<close>

definition scoreWallFollowing :: "move \<Rightarrow> direction option \<Rightarrow> string \<Rightarrow> int" where
  "scoreWallFollowing m lastDirection md =
     (case lastDirection of
        None \<Rightarrow> 0
      | Some d \<Rightarrow>
          let order = (if md = ''left'' then leftPriority d else rightPriority d);
              index = indexOf order (mdir m)
          in if index \<ge> 0 then 4 - index else 0)"

definition wallFollowingLogic :: "move list \<Rightarrow> direction option \<Rightarrow> string \<Rightarrow> blockResult" where
  "wallFollowingLogic possibleMoves lastDirection md =
     (let scoredMoves = map (\<lambda>m. (m, scoreWallFollowing m lastDirection md)) possibleMoves;
          maxScore = mathMax (map snd scoredMoves);
          bestMoves = map fst (filter (\<lambda>sm. Num (snd sm) = maxScore) scoredMoves)
      in BlockResult bestMoves (Some (if md = ''left'' then ArrowLeft else ArrowRight)))"

definition rightWallLogic :: "move list \<Rightarrow> direction option \<Rightarrow> blockResult" where
  "rightWallLogic possibleMoves lastDirection = wallFollowingLogic possibleMoves lastDirection ''right''"

definition isFinishVisible :: "pos \<Rightarrow> pos option \<Rightarrow> ('a game_scheme) \<Rightarrow> bool" where
  "isFinishVisible currentPos fin maze =
     (case fin of
        None \<Rightarrow> False
      | Some f \<Rightarrow>
          if fst currentPos = fst f then
            list_all (\<lambda>y. cellAt (grid maze) (fst currentPos) y = Some 1)
              [min (snd currentPos) (snd f) + 1 .. max (snd currentPos) (snd f) - 1]
          else if snd currentPos = snd f then
            list_all (\<lambda>x. cellAt (grid maze) x (snd currentPos) = Some 1)
              [min (fst currentPos) (fst f) + 1 .. max (fst currentPos) (fst f) - 1]
          else False)"

fun directionDeltas :: "direction \<Rightarrow> int \<times> int" where
  "directionDeltas DUp = (0, -1)"
| "directionDeltas DDown = (0, 1)"
| "directionDeltas DLeft = (-1, 0)"
| "directionDeltas DRight = (1, 0)"

text \<open>The scanning loop of \<open>distanceToUncharted\<close>, \<open>distance\<close> running from 1 to 5.\<close>

function unchartedScan :: "('a game_scheme) \<Rightarrow> pos set \<Rightarrow> int \<times> int \<Rightarrow> pos \<Rightarrow> int \<Rightarrow> int" where
  "unchartedScan maze visited delta check distance =
     (if distance \<le> 5 then
        (if fst check < 0 \<or> fst check \<ge> width maze \<or> snd check < 0 \<or> snd check \<ge> height maze then 0
         else if cellAt (grid maze) (fst check) (snd check) \<noteq> Some 1 then 0
         else if check \<notin> visited then distance
         else unchartedScan maze visited delta (fst check + fst delta, snd check + snd delta) (distance + 1))
      else 0)"
  by pat_completeness auto
termination
  by (relation "measure (\<lambda>(maze, visited, delta, check, distance). nat (6 - distance))") auto

declare unchartedScan.simps [simp del]

definition distanceToUncharted :: "move \<Rightarrow> pos \<Rightarrow> ('a game_scheme) \<Rightarrow> pos set \<Rightarrow> int" where
  "distanceToUncharted m currentPos maze visited =
     (let delta = directionDeltas (mdir m)
      in unchartedScan maze visited delta (fst currentPos + fst delta, snd currentPos + snd delta) 1)"

definition hasUnchartedTerritory :: "pos \<Rightarrow> ('a game_scheme) \<Rightarrow> pos set \<Rightarrow> move list \<Rightarrow> bool" where
  "hasUnchartedTerritory currentPos maze visited possibleMoves =
     list_ex (\<lambda>m. distanceToUncharted m currentPos maze visited > 0) possibleMoves"

text \<open>The inner loop of \<open>countPlayersInDirection\<close>: the other live players on one cell.\<close>

definition playersAt :: "player list \<Rightarrow> int \<Rightarrow> pos \<Rightarrow> nat" where
  "playersAt allPlayers currentPlayerIndex check =
     length (filter (\<lambda>(i, pl). int i \<noteq> currentPlayerIndex \<and>
                              \<not> (\<not> isActive pl \<or> isFinished pl \<or> isRemoved pl) \<and>
                              position pl = check)
               (enumerate 0 allPlayers))"

text \<open>Its outer loop, \<open>distance\<close> running from 1 to 7.\<close>

function playersScan :: "('a game_scheme) \<Rightarrow> player list \<Rightarrow> int \<Rightarrow> int \<times> int \<Rightarrow> pos \<Rightarrow> int \<Rightarrow> nat \<Rightarrow> nat" where
  "playersScan maze allPlayers currentPlayerIndex delta check distance count =
     (if distance \<le> 7 then
        (if fst check < 0 \<or> fst check \<ge> width maze \<or> snd check < 0 \<or> snd check \<ge> height maze then count
         else if cellAt (grid maze) (fst check) (snd check) \<noteq> Some 1 then count
         else playersScan maze allPlayers currentPlayerIndex delta
                (fst check + fst delta, snd check + snd delta) (distance + 1)
                (count + playersAt allPlayers currentPlayerIndex check))
      else count)"
  by pat_completeness auto
termination
  by (relation "measure (\<lambda>(maze, allPlayers, currentPlayerIndex, delta, check, distance, count).
                  nat (8 - distance))") auto

declare playersScan.simps [simp del]

definition countPlayersInDirection :: "move \<Rightarrow> pos \<Rightarrow> ('a game_scheme) \<Rightarrow> player list \<Rightarrow> int \<Rightarrow> nat" where
  "countPlayersInDirection m currentPos maze allPlayers currentPlayerIndex =
     (if length allPlayers \<le> 1 then 0
      else let delta = directionDeltas (mdir m)
           in playersScan maze allPlayers currentPlayerIndex delta
                (fst currentPos + fst delta, snd currentPos + snd delta) 1 0)"

definition hasVisiblePlayers :: "pos \<Rightarrow> ('a game_scheme) \<Rightarrow> player list \<Rightarrow> int \<Rightarrow> move list \<Rightarrow> bool" where
  "hasVisiblePlayers currentPos maze allPlayers currentPlayerIndex possibleMoves =
     list_ex (\<lambda>m. countPlayersInDirection m currentPos maze allPlayers currentPlayerIndex > 0) possibleMoves"

definition lineOfSightLogic :: "move list \<Rightarrow> pos \<Rightarrow> pos option \<Rightarrow> ('a game_scheme) \<Rightarrow> pos set \<Rightarrow> blockResult" where
  "lineOfSightLogic possibleMoves currentPos fin maze visited =
     (let towardFinish =
            (case fin of
               None \<Rightarrow> []
             | Some f \<Rightarrow>
                 if isFinishVisible currentPos fin maze then
                   filter (\<lambda>m. (mdir m = DUp \<and> snd f < snd currentPos) \<or>
                               (mdir m = DDown \<and> snd f > snd currentPos) \<or>
                               (mdir m = DLeft \<and> fst f < fst currentPos) \<or>
                               (mdir m = DRight \<and> fst f > fst currentPos)) possibleMoves
                 else [])
      in if towardFinish \<noteq> [] then BlockResult towardFinish (Some Exclaim)
         else
           let movesWithDistance =
                 filter (\<lambda>md. snd md > 0)
                   (map (\<lambda>m. (m, distanceToUncharted m currentPos maze visited)) possibleMoves)
           in if movesWithDistance \<noteq> [] then
                let bestDistance = mathMin (map snd movesWithDistance);
                    bestMoves = map fst (filter (\<lambda>md. Num (snd md) = bestDistance) movesWithDistance)
                in BlockResult bestMoves (Some Exclaim)
              else BlockResult possibleMoves None)"

text \<open>
  \<open>Math.sqrt(dx * dx + dy * dy)\<close> with \<open>dx = finish.x - x\<close>, \<open>dy = finish.y - y\<close>, over the
  reals. The source computes in doubles; for the integer coordinates of a grid the sum of
  squares is exact, and the correctly rounded square roots of two different such sums are
  different doubles in the same order, so the comparisons agree.
\<close>

definition distanceTo :: "pos \<Rightarrow> int \<Rightarrow> int \<Rightarrow> real" where
  "distanceTo f x y =
     (let dx = fst f - x; dy = snd f - y in sqrt (real_of_int (dx * dx + dy * dy)))"

text \<open>The branch \<open>case 'towardExit'\<close> of \<open>isBlockApplicable\<close>.\<close>

definition towardExitApplicable :: "pos \<Rightarrow> pos option \<Rightarrow> move list \<Rightarrow> bool" where
  "towardExitApplicable currentPos fin possibleMoves =
     (case fin of
        None \<Rightarrow> False
      | Some f \<Rightarrow>
          let currentDistance = distanceTo f (fst currentPos) (snd currentPos);
              closerMoves = filter (\<lambda>m. distanceTo f (mx m) (my m) < currentDistance) possibleMoves
          in if closerMoves = [] then False
             else
               let distances = map (\<lambda>m. distanceTo f (mx m) (my m)) closerMoves;
                   minDist = mathMin distances;
                   maxDist = mathMax distances
               in jsLess minDist maxDist \<or> length closerMoves = 1)"

definition towardExitLogic :: "move list \<Rightarrow> pos \<Rightarrow> pos option \<Rightarrow> blockResult" where
  "towardExitLogic possibleMoves currentPos fin =
     (case fin of
        None \<Rightarrow> BlockResult possibleMoves None
      | Some f \<Rightarrow>
          let currentDistance = distanceTo f (fst currentPos) (snd currentPos);
              closerMoves = filter (\<lambda>m. distanceTo f (mx m) (my m) < currentDistance) possibleMoves
          in if closerMoves = [] then BlockResult possibleMoves None
             else
               let scoredMoves = map (\<lambda>m. (m, distanceTo f (mx m) (my m))) closerMoves;
                   minDistance = mathMin (map snd scoredMoves);
                   bestMoves = map fst (filter (\<lambda>sm. Num (snd sm) = minDistance) scoredMoves)
               in BlockResult bestMoves (Some Compass))"

text \<open>
  \<open>checkMapLogic\<close> and the branch \<open>case 'checkMap'\<close> of \<open>isBlockApplicable\<close> call the
  breadth-first search, so they return only if it does.
\<close>

definition checkMapLogic :: "move list \<Rightarrow> pos \<Rightarrow> pos option \<Rightarrow> ('a game_scheme) \<Rightarrow> blockResult option" where
  "checkMapLogic possibleMoves currentPos fin maze =
     (case fin of
        None \<Rightarrow> Some (BlockResult possibleMoves None)
      | Some f \<Rightarrow>
          do {
            shortestPath \<leftarrow> brainFindShortestPath currentPos fin maze;
            (case shortestPath of
               None \<Rightarrow> Some (BlockResult possibleMoves None)
             | Some path \<Rightarrow>
                 if length path \<le> 1 then Some (BlockResult possibleMoves None)
                 else
                   let nextStep = path ! 1;
                       bestMoves = filter (\<lambda>m. mx m = fst nextStep \<and> my m = snd nextStep) possibleMoves
                   in if bestMoves \<noteq> [] then Some (BlockResult bestMoves (Some MapGlyph))
                      else Some (BlockResult possibleMoves None))
          })"

definition checkMapApplicable :: "pos \<Rightarrow> pos option \<Rightarrow> ('a game_scheme) \<Rightarrow> bool option" where
  "checkMapApplicable currentPos fin maze =
     (case fin of
        None \<Rightarrow> Some False
      | Some f \<Rightarrow>
          do {
            shortestPath \<leftarrow> brainFindShortestPath currentPos fin maze;
            Some (case shortestPath of None \<Rightarrow> False | Some path \<Rightarrow> length path > 1)
          })"

definition visitCount :: "(pos \<rightharpoonup> int) \<Rightarrow> move \<Rightarrow> int" where
  "visitCount visitCounts m = (case visitCounts (mx m, my m) of None \<Rightarrow> 0 | Some c \<Rightarrow> c)"

text \<open>The branch \<open>case 'backtracking'\<close> of \<open>isBlockApplicable\<close>.\<close>

definition backtrackingApplicable :: "(pos \<rightharpoonup> int) \<Rightarrow> move list \<Rightarrow> bool" where
  "backtrackingApplicable visitCounts possibleMoves =
     (let counts = map (visitCount visitCounts) possibleMoves;
          minCount = mathMin counts;
          maxCount = mathMax counts
      in jsLess minCount maxCount)"

definition backtrackingLogic :: "move list \<Rightarrow> pos set \<Rightarrow> (pos \<rightharpoonup> int) \<Rightarrow> string \<Rightarrow> blockResult" where
  "backtrackingLogic possibleMoves visited visitCounts md =
     (let movesWithCounts = map (\<lambda>m. (m, visitCount visitCounts m)) possibleMoves
      in if md = ''avoid'' then
           let minCount = mathMin (map snd movesWithCounts);
               bestMoves = map fst (filter (\<lambda>mc. Num (snd mc) = minCount) movesWithCounts)
           in BlockResult bestMoves (Some Brain)
         else
           let maxCount = mathMax (map snd movesWithCounts);
               bestMoves = map fst (filter (\<lambda>mc. Num (snd mc) = maxCount) movesWithCounts)
           in BlockResult bestMoves (Some Question))"

definition socialLogic :: "move list \<Rightarrow> pos \<Rightarrow> ('a game_scheme) \<Rightarrow> player list \<Rightarrow> int \<Rightarrow> string \<Rightarrow> blockResult" where
  "socialLogic possibleMoves currentPos maze allPlayers currentPlayerIndex md =
     (let scoredMoves =
            map (\<lambda>m. let playersInDirection =
                            int (countPlayersInDirection m currentPos maze allPlayers currentPlayerIndex)
                      in if md = ''follow'' then (m, playersInDirection) else (m, - playersInDirection))
              possibleMoves;
          maxScore = mathMax (map snd scoredMoves);
          bestMoves = map fst (filter (\<lambda>sm. Num (snd sm) = maxScore) scoredMoves)
      in BlockResult bestMoves (Some (if md = ''follow'' then Heart else Peek)))"

definition randomGuesser :: "move list \<Rightarrow> blockResult" where
  "randomGuesser possibleMoves = BlockResult possibleMoves (Some Dice)"


section \<open>Tiered decision engine (\<open>AIBrain.js\<close>)\<close>

text \<open>
  \<open>isBlockApplicable\<close> and \<open>executeBlock\<close>: the \<open>switch\<close> on the type string, with its
  \<open>default\<close> branch last. \<open>None\<close> is a call that does not return.
\<close>

definition isBlockApplicable :: "block \<Rightarrow> ctx \<Rightarrow> move list \<Rightarrow> bool option" where
  "isBlockApplicable b c possibleMoves =
     (if blockType b = ''wallFollowing'' \<or> blockType b = ''rightWall'' then
        Some (cLastDirection c \<noteq> None)
      else if blockType b = ''lineOfSight'' then
        Some (isFinishVisible (cPos c) (cFinish c) (cMaze c) \<or>
              hasUnchartedTerritory (cPos c) (cMaze c) (cVisited c) possibleMoves)
      else if blockType b = ''towardExit'' then
        Some (towardExitApplicable (cPos c) (cFinish c) possibleMoves)
      else if blockType b = ''checkMap'' then
        checkMapApplicable (cPos c) (cFinish c) (cMaze c)
      else if blockType b = ''backtracking'' then
        Some (backtrackingApplicable (cVisitCounts c) possibleMoves)
      else if blockType b = ''social'' then
        Some (hasVisiblePlayers (cPos c) (cMaze c) (cAllPlayers c) (cPlayerIndex c) possibleMoves)
      else if blockType b = ''randomGuesser'' then Some True
      else Some False)"

definition executeBlock :: "block \<Rightarrow> ctx \<Rightarrow> move list \<Rightarrow> blockResult option" where
  "executeBlock b c possibleMoves =
     (if blockType b = ''wallFollowing'' then
        Some (wallFollowingLogic possibleMoves (cLastDirection c) (modeOr (mode b) ''right''))
      else if blockType b = ''rightWall'' then
        Some (rightWallLogic possibleMoves (cLastDirection c))
      else if blockType b = ''lineOfSight'' then
        Some (lineOfSightLogic possibleMoves (cPos c) (cFinish c) (cMaze c) (cVisited c))
      else if blockType b = ''towardExit'' then
        Some (towardExitLogic possibleMoves (cPos c) (cFinish c))
      else if blockType b = ''checkMap'' then
        checkMapLogic possibleMoves (cPos c) (cFinish c) (cMaze c)
      else if blockType b = ''backtracking'' then
        Some (backtrackingLogic possibleMoves (cVisited c) (cVisitCounts c) (modeOr (mode b) ''avoid''))
      else if blockType b = ''social'' then
        Some (socialLogic possibleMoves (cPos c) (cMaze c) (cAllPlayers c) (cPlayerIndex c)
                (modeOr (mode b) ''follow''))
      else if blockType b = ''randomGuesser'' then Some (randomGuesser possibleMoves)
      else Some (randomGuesser possibleMoves))"

definition combineEmotes :: "emote list \<Rightarrow> emote list option" where
  "combineEmotes emotes =
     (if length emotes = 0 then None
      else if length emotes = 1 then Some [emotes ! 0]
      else let filtered = filter (\<lambda>e. e \<noteq> Dice) emotes
           in if length filtered > 0 then Some filtered else Some [emotes ! 0])"

text \<open>\<open>tier.blocks.filter(block => this.isBlockApplicable(block, ...))\<close>.\<close>

fun filterApplicable :: "ctx \<Rightarrow> move list \<Rightarrow> block list \<Rightarrow> block list option" where
  "filterApplicable c ms [] = Some []"
| "filterApplicable c ms (b # bs) =
     do {
       a \<leftarrow> isBlockApplicable b c ms;
       rest \<leftarrow> filterApplicable c ms bs;
       Some (if a then b # rest else rest)
     }"

text \<open>
  The weighted draw: \<open>for (const block of applicableBlocks) { random -= block.weight;
  if (random <= 0) { selectedBlock = block; break; } }\<close>, over the reals.
\<close>

fun selectBlock :: "real \<Rightarrow> block list \<Rightarrow> block option" where
  "selectBlock random [] = None"
| "selectBlock random (b # bs) =
     (let random' = random - weight b in if random' \<le> 0 then Some b else selectBlock random' bs)"

text \<open>
  One tier either ends the decision (\<open>Return\<close>) or hands the candidate moves, the emotes
  and the number of \<open>Math.random()\<close> calls made so far on to the next tier (\<open>Continue\<close>).
  The \<open>k\<close>-th call of \<open>Math.random()\<close> within a decision returns \<open>rnd k\<close>.
\<close>

datatype tierOutcome = Return decision | Continue "move list" "emote list" nat

text \<open>The body of \<open>if (selectedBlock) { ... }\<close>, after \<open>executeBlock\<close> has returned \<open>result\<close>.\<close>

definition afterBlock :: "blockResult \<Rightarrow> move list \<Rightarrow> emote list \<Rightarrow> nat \<Rightarrow> tierOutcome" where
  "afterBlock result currentMoves emotes k =
     (if length (moves result) > 0 then
        let emotes' = (case thought result of Some t \<Rightarrow> emotes @ [t] | None \<Rightarrow> emotes)
        in if length (moves result) = 1
           then Return (Decision (Some (moves result ! 0)) (combineEmotes emotes'))
           else Continue (moves result) emotes' k
      else Continue currentMoves emotes k)"

definition processTier :: "ctx \<Rightarrow> (nat \<Rightarrow> real) \<Rightarrow> tier \<Rightarrow> move list \<Rightarrow> emote list \<Rightarrow> nat \<Rightarrow>
    tierOutcome option" where
  "processTier c rnd t currentMoves emotes k =
     (if length t = 0 then Some (Continue currentMoves emotes k)
      else
        do {
          applicableBlocks \<leftarrow> filterApplicable c currentMoves t;
          if length applicableBlocks = 0 then Some (Continue currentMoves emotes k)
          else
            let totalWeight = foldl (\<lambda>sum b. sum + weight b) 0 applicableBlocks;
                random = rnd k * totalWeight
            in case selectBlock random applicableBlocks of
                 None \<Rightarrow> Some (Continue currentMoves emotes (k + 1))
               | Some selectedBlock \<Rightarrow>
                   do {
                     result \<leftarrow> executeBlock selectedBlock c currentMoves;
                     Some (afterBlock result currentMoves emotes (k + 1))
                   }
        })"

text \<open>The \<open>for\<close> loop over \<open>this.tiers\<close>.\<close>

fun processTiers :: "ctx \<Rightarrow> (nat \<Rightarrow> real) \<Rightarrow> tier list \<Rightarrow> move list \<Rightarrow> emote list \<Rightarrow> nat \<Rightarrow>
    tierOutcome option" where
  "processTiers c rnd [] currentMoves emotes k = Some (Continue currentMoves emotes k)"
| "processTiers c rnd (t # ts) currentMoves emotes k =
     do {
       r \<leftarrow> processTier c rnd t currentMoves emotes k;
       (case r of
          Return d \<Rightarrow> Some (Return d)
        | Continue currentMoves' emotes' k' \<Rightarrow> processTiers c rnd ts currentMoves' emotes' k')
     }"

text \<open>
  \<open>currentMoves[Math.floor(Math.random() * currentMoves.length)]\<close>, over the reals; an
  index outside the array reads \<open>undefined\<close>, which is no move. (There are at most four
  candidates, and for a double \<open>r < 1\<close> and \<open>n \<le> 4\<close> the rounded product \<open>r * n\<close> is below
  \<open>n\<close> as the real one is.)
\<close>

definition pickRandom :: "real \<Rightarrow> move list \<Rightarrow> move option" where
  "pickRandom r currentMoves =
     (let i = \<lfloor>r * real (length currentMoves)\<rfloor>
      in if 0 \<le> i \<and> nat i < length currentMoves then Some (currentMoves ! nat i) else None)"

text \<open>
  \<open>decideNextMove\<close>, with \<open>this.tiers\<close> as its first argument and the sequence of
  \<open>Math.random()\<close> results as its second.
\<close>

definition decideNextMove :: "tier list \<Rightarrow> (nat \<Rightarrow> real) \<Rightarrow> ctx \<Rightarrow> decision option" where
  "decideNextMove tiers rnd c =
     (let possibleMoves = getPossibleMoves (cPos c) (cMaze c) in
      if length possibleMoves = 0 then Some (Decision None None)
      else
        let possibleMoves =
              (case cLastDirection c of
                 None \<Rightarrow> possibleMoves
               | Some lastDirection \<Rightarrow>
                   let backwardDir = oppositeDir lastDirection;
                       forwardMoves = filter (\<lambda>m. mdir m \<noteq> backwardDir) possibleMoves
                   in if length forwardMoves > 0 then forwardMoves else possibleMoves)
        in
          if length possibleMoves = 1 then Some (Decision (Some (possibleMoves ! 0)) None)
          else
            do {
              r \<leftarrow> processTiers c rnd tiers possibleMoves [] 0;
              (case r of
                 Return d \<Rightarrow> Some d
               | Continue currentMoves emotes k \<Rightarrow>
                   let finalMove = pickRandom (rnd k) currentMoves;
                       emotes' = (if length emotes = 0 then emotes @ [Dice] else emotes)
                   in Some (Decision finalMove (combineEmotes emotes')))
            })"

text \<open>The constructor's default: three empty tiers when none are given.\<close>

definition brainTiers :: "tier list \<Rightarrow> tier list" where
  "brainTiers tiers = (if length tiers > 0 then tiers else [[], [], []])"

text \<open>The draws of \<open>Math.random()\<close> lie in \<open>[0, 1)\<close>.\<close>

definition randomOk :: "(nat \<Rightarrow> real) \<Rightarrow> bool" where
  "randomOk rnd = (\<forall>k. 0 \<le> rnd k \<and> rnd k < 1)"


section \<open>Notions of the specification and test fixtures\<close>

text \<open>
  The candidates strictly closer to the exit than the current position: the array
  \<open>closerMoves\<close> that \<open>isBlockApplicable\<close> and \<open>towardExitLogic\<close> both compute.
\<close>

definition closerMoves :: "pos \<Rightarrow> pos \<Rightarrow> move list \<Rightarrow> move list" where
  "closerMoves currentPos f possibleMoves =
     filter (\<lambda>m. distanceTo f (mx m) (my m) < distanceTo f (fst currentPos) (snd currentPos)) possibleMoves"

text \<open>
  A 3x3 maze with the agent in the corner \<open>(0, 0)\<close>, the ways right and down open and the
  exit in the opposite corner.
\<close>

definition diagonalCtx :: ctx where
  "diagonalCtx = \<lparr> cPos = (0, 0), cVisited = {(0, 0)}, cVisitCounts = [(0, 0) \<mapsto> 1],
       cMaze = \<lparr> width = 3, height = 3, grid = [[1,1,0],[1,0,0],[0,0,1]],
                  tractorPosition = (1, 1), tractorDirection = DRight, startPosition = None,
                  finishPosition = Some (2, 2), gameMode = ''player'', isMoving = False, keys = [] \<rparr>,
       cFinish = Some (2, 2), cLastDirection = None, cAllPlayers = [], cPlayerIndex = 0 \<rparr>"

text \<open>
  A chain of parents, newest cell first: each cell's entry in the \<open>parent\<close> map is the next cell,
  and the last cell has no entry.
\<close>

fun isChain :: "(pos \<rightharpoonup> pos) \<Rightarrow> pos list \<Rightarrow> bool" where
  "isChain par [] = False"
| "isChain par [c] = (par c = None)"
| "isChain par (c # d # cs) = (par c = Some d \<and> isChain par (d # cs))"

text \<open>Every visited cell hangs on the start by a chain of parents that is an open path.\<close>

definition treeOk :: "('a game_scheme) \<Rightarrow> pos \<Rightarrow> pos set \<Rightarrow> (pos \<rightharpoonup> pos) \<Rightarrow> bool" where
  "treeOk g s v par =
     (s \<in> v \<and> dom par \<subseteq> v \<and>
      (\<forall>x\<in>v. \<exists>bs. isChain par bs \<and> hd bs = x \<and> last bs = s \<and> distinct bs \<and> set bs \<subseteq> v \<and>
                   openPath g (rev bs)))"

text \<open>All open neighbours of \<open>x\<close> are visited.\<close>

definition closedAt :: "('a game_scheme) \<Rightarrow> pos set \<Rightarrow> pos \<Rightarrow> bool" where
  "closedAt g v x = (\<forall>n. openCell g n \<and> adjacent x n \<longrightarrow> n \<in> v)"

text \<open>While the neighbours of the dequeued cell \<open>c\<close> are visited.\<close>

definition midInv :: "('a game_scheme) \<Rightarrow> pos \<Rightarrow> pos \<Rightarrow> pos \<Rightarrow> pos list \<Rightarrow> pos set \<Rightarrow> (pos \<rightharpoonup> pos) \<Rightarrow> bool" where
  "midInv g s f c q v par =
     (treeOk g s v par \<and> c \<in> v \<and> set q \<subseteq> v \<and>
      (\<forall>x\<in>v - set q - {c}. x \<noteq> f \<and> closedAt g v x))"

text \<open>At the head of the \<open>while\<close> loop.\<close>

definition bfsInv :: "('a game_scheme) \<Rightarrow> pos \<Rightarrow> pos \<Rightarrow> pos list \<Rightarrow> pos set \<Rightarrow> (pos \<rightharpoonup> pos) \<Rightarrow> bool" where
  "bfsInv g s f q v par =
     (treeOk g s v par \<and> set q \<subseteq> v \<and> (\<forall>x\<in>v - set q. x \<noteq> f \<and> closedAt g v x))"

text \<open>The cells \<open>ext\<close> continue a path from \<open>c\<close>: each is open and next to the one before.\<close>

fun steps :: "('a game_scheme) \<Rightarrow> pos \<Rightarrow> pos list \<Rightarrow> bool" where
  "steps g c [] = True"
| "steps g c (d # ds) = (adjacent c d \<and> openCell g d \<and> steps g d ds)"

text \<open>
  A ring of open cells around a closed centre, with the entry and the exit in two corners
  of the top row: the short way has 3 cells, the long way round has 7.
\<close>

definition ring3 :: game where
  "ring3 = \<lparr> width = 3, height = 3, grid = [[1,1,1],[1,0,1],[1,1,1]],
               tractorPosition = (2, 0), tractorDirection = DRight, startPosition = Some (0, 0),
               finishPosition = Some (2, 0), gameMode = ''farmer'', isMoving = False, keys = [] \<rparr>"

text \<open>An agent in the top left corner of the ring, the exit in the top right corner.\<close>

definition ringCtx :: ctx where
  "ringCtx = \<lparr> cPos = (0, 0), cVisited = {(0, 0)}, cVisitCounts = [(0, 0) \<mapsto> 1],
       cMaze = ring3, cFinish = Some (2, 0), cLastDirection = None, cAllPlayers = [],
       cPlayerIndex = 0 \<rparr>"

text \<open>
  The candidate moves after the anti-reversal filter of \<open>decideNextMove\<close>: the reverse of the
  last direction is dropped unless nothing else is left.
\<close>

definition forwardOptions :: "direction option \<Rightarrow> move list \<Rightarrow> move list" where
  "forwardOptions lastDirection possibleMoves =
     (case lastDirection of
        None \<Rightarrow> possibleMoves
      | Some d \<Rightarrow>
          if filter (\<lambda>m. mdir m \<noteq> oppositeDir d) possibleMoves \<noteq> []
          then filter (\<lambda>m. mdir m \<noteq> oppositeDir d) possibleMoves
          else possibleMoves)"

text \<open>
  What a tier hands on, given at least two candidates \<open>ms\<close>: a returned move is one of them;
  otherwise at least two of them are left.
\<close>

fun outcomeOk :: "move list \<Rightarrow> tierOutcome \<Rightarrow> bool" where
  "outcomeOk ms (Return d) = (\<exists>m\<in>set ms. decidedMove d = Some m)"
| "outcomeOk ms (Continue ms' es' k') = (set ms' \<subseteq> set ms \<and> 2 \<le> length ms')"

text \<open>
  A crossing: the agent in the middle of a plus-shaped maze, having come from the left.
\<close>

definition plusCtx :: ctx where
  "plusCtx = \<lparr> cPos = (1, 1), cVisited = {(0, 1), (1, 1)}, cVisitCounts = [(0, 1) \<mapsto> 1, (1, 1) \<mapsto> 1],
       cMaze = \<lparr> width = 3, height = 3, grid = [[0,1,0],[1,1,1],[0,1,0]],
                  tractorPosition = (1, 1), tractorDirection = DRight, startPosition = Some (0, 1),
                  finishPosition = Some (2, 1), gameMode = ''player'', isMoving = False, keys = [] \<rparr>,
       cFinish = Some (2, 1), cLastDirection = Some DRight, cAllPlayers = [], cPlayerIndex = 0 \<rparr>"

text \<open>
  A WallFollowing block in right-hand mode and a RandomGuesser block, of weight \<open>w\<close>.
\<close>

definition wallBlock :: "real \<Rightarrow> block" where
  "wallBlock w = \<lparr>blockType = ''wallFollowing'', weight = w, mode = Some ''right''\<rparr>"

definition guessBlock :: "real \<Rightarrow> block" where
  "guessBlock w = \<lparr>blockType = ''randomGuesser'', weight = w, mode = None\<rparr>"

text \<open>
  A dead end: in the corner maze at \<open>(1, 0)\<close>, having come from the left, only the way back is open.
\<close>

definition deadEndCtx :: ctx where
  "deadEndCtx = diagonalCtx\<lparr>cPos := (1, 0), cLastDirection := Some DRight\<rparr>"

text \<open>
  An agent on the walled-in cell \<open>(2, 2)\<close> of the corner maze: no legal move.
\<close>

definition islandCtx :: ctx where
  "islandCtx = diagonalCtx\<lparr>cPos := (2, 2)\<rparr>"

text \<open>
  The calls of \<open>decideNextMove\<close> that \<open>Player\<close> makes: the grid is well formed, the agent
  stands on an open cell of it, and the exit, when set, is a cell of it. Under these
  conditions every array read of the source is inside the arrays.
\<close>

definition ctxOk :: "ctx \<Rightarrow> bool" where
  "ctxOk c = (wfGrid (cMaze c) \<and> openCell (cMaze c) (cPos c) \<and>
              (case cFinish c of None \<Rightarrow> True | Some f \<Rightarrow> inBounds (cMaze c) (fst f) (snd f)))"

section \<open>The carving rule keeps the maze planar\<close>

lemma wf_row:
  "wfGrid g \<Longrightarrow> 0 \<le> y \<Longrightarrow> y < height g \<Longrightarrow> int (length (grid g ! nat y)) = width g"
proof -
  assume a: "wfGrid g" "0 \<le> y" "y < height g"
  then have "nat y < length (grid g)" by (auto simp: wfGrid_def)
  then have "grid g ! nat y \<in> set (grid g)" by (rule nth_mem)
  with a show ?thesis by (auto simp: wfGrid_def list_all_iff)
qed

lemma cellAt_update_same:
  "i < length gr \<Longrightarrow> j < length (gr ! i) \<Longrightarrow> 0 \<le> x \<Longrightarrow> 0 \<le> y \<Longrightarrow> nat y = i \<Longrightarrow> nat x = j \<Longrightarrow>
   cellAt (gr[i := (gr ! i)[j := v]]) x y = Some v"
  by (simp add: cellAt_def)

lemma cellAt_update_other:
  "0 \<le> x \<longrightarrow> 0 \<le> y \<longrightarrow> nat y = i \<longrightarrow> nat x \<noteq> j \<Longrightarrow>
   cellAt (gr[i := (gr ! i)[j := v]]) x y = cellAt gr x y"
  by (cases "nat y = i"; cases "i < length gr") (auto simp: cellAt_def)

lemma cellAt_setCell:
  assumes "wfGrid g" "inBounds g x y"
  shows "cellAt (setCell (grid g) x y v) x' y' =
           (if x' = x \<and> y' = y then Some v else cellAt (grid g) x' y')"
proof -
  from assms wf_row [of g y] have ly: "nat y < length (grid g)" and lx: "nat x < length (grid g ! nat y)"
    and x0: "0 \<le> x" and y0: "0 \<le> y"
    by (auto simp: wfGrid_def inBounds_def)
  show ?thesis
  proof (cases "x' = x \<and> y' = y")
    case True
    then show ?thesis unfolding setCell_def
      using cellAt_update_same [OF ly lx x0 y0 refl refl] by simp
  next
    case False
    then have "0 \<le> x' \<longrightarrow> 0 \<le> y' \<longrightarrow> nat y' = nat y \<longrightarrow> nat x' \<noteq> nat x"
      using x0 y0 by auto
    then show ?thesis unfolding setCell_def
      using False by (simp only: cellAt_update_other if_False)
  qed
qed

lemma length_setCell: "length (setCell gr x y v) = length gr"
  by (simp add: setCell_def)

lemma rows_setCell:
  assumes "\<forall>row\<in>set gr. length row = n"
  shows "\<forall>row\<in>set (setCell gr x y v). length row = n"
proof
  fix row assume "row \<in> set (setCell gr x y v)"
  then have r: "row \<in> insert ((gr ! nat y)[nat x := v]) (set gr)"
    unfolding setCell_def by (rule set_update_subset_insert [THEN subsetD])
  show "length row = n"
  proof (cases "nat y < length gr")
    case True
    then have "gr ! nat y \<in> set gr" by (rule nth_mem)
    with assms r show ?thesis by auto
  next
    case False
    then have "setCell gr x y v = gr" by (simp add: setCell_def list_update_beyond)
    with \<open>row \<in> set (setCell gr x y v)\<close> assms show ?thesis by simp
  qed
qed

lemma wfGrid_setCell:
  assumes "wfGrid g"
  shows "wfGrid (g\<lparr>grid := setCell (grid g) x y v\<rparr>)"
proof -
  from assms have "\<forall>row\<in>set (grid g). length row = nat (width g)"
    by (auto simp: wfGrid_def list_all_iff)
  then have "\<forall>row\<in>set (setCell (grid g) x y v). length row = nat (width g)"
    by (rule rows_setCell)
  with assms show ?thesis
    by (simp add: wfGrid_def list_all_iff length_setCell)
qed

lemma upto_two: "[a..a + 1] = [a, a + 1]"
  by (simp add: upto_rec1)

lemma check2x2Block_iff:
  "check2x2Block g x y x1 y1 (x1 + 1) (y1 + 1) =
     (x1 < 0 \<or> y1 < 0 \<or> x1 + 1 \<ge> width g \<or> y1 + 1 \<ge> height g \<or>
      \<not> ((cellAt (grid g) x1 y1 = Some 1 \<or> (x1 = x \<and> y1 = y)) \<and>
          (cellAt (grid g) (x1 + 1) y1 = Some 1 \<or> (x1 + 1 = x \<and> y1 = y)) \<and>
          (cellAt (grid g) x1 (y1 + 1) = Some 1 \<or> (x1 = x \<and> y1 + 1 = y)) \<and>
          (cellAt (grid g) (x1 + 1) (y1 + 1) = Some 1 \<or> (x1 + 1 = x \<and> y1 + 1 = y))))"
  unfolding check2x2Block_def Let_def upto_two
  by simp

lemma openPerimeter_eq:
  "openPerimeter g = {(x, y). inBounds g x y \<and> isOnPerimeter g x y \<and> isOpen g x y}"
  by (auto simp: openPerimeter_def set_allCells)

lemma count_eq_card: "countPlowedPerimeterSquares g = card (openPerimeter g)"
  unfolding countPlowedPerimeterSquares_def openPerimeter_def isOpen_def
  by (rule distinct_card [symmetric]) (rule distinct_filter, rule distinct_allCells)

lemma isOpen_carve:
  "wfGrid g \<Longrightarrow> inBounds g x y \<Longrightarrow>
   isOpen (g\<lparr>grid := setCell (grid g) x y 1\<rparr>) x' y' = ((x' = x \<and> y' = y) \<or> isOpen g x' y')"
  by (auto simp: isOpen_def cellAt_setCell)

lemma openPerimeter_carve:
  assumes "wfGrid g" "inBounds g x y"
  shows "openPerimeter (g\<lparr>grid := setCell (grid g) x y 1\<rparr>) =
           (if isOnPerimeter g x y then insert (x, y) (openPerimeter g) else openPerimeter g)"
  using assms
  by (auto simp: openPerimeter_eq isOpen_carve inBounds_def isOnPerimeter_def)

lemma perimeterOk_carve:
  assumes wf: "wfGrid g" and ib: "inBounds g x y" and ok: "perimeterOk g" and cp: "canPlow g x y"
  shows "perimeterOk (g\<lparr>grid := setCell (grid g) x y 1\<rparr>)"
proof (cases "isOnPerimeter g x y")
  case False
  with ok show ?thesis by (simp add: perimeterOk_def openPerimeter_carve [OF wf ib])
next
  case True
  show ?thesis
  proof (cases "isOpen g x y")
    case True
    with ib \<open>isOnPerimeter g x y\<close> have "(x, y) \<in> openPerimeter g"
      by (simp add: openPerimeter_eq)
    then have "insert (x, y) (openPerimeter g) = openPerimeter g" by auto
    with ok \<open>isOnPerimeter g x y\<close> show ?thesis
      by (simp add: perimeterOk_def openPerimeter_carve [OF wf ib])
  next
    case False
    with cp True have "\<not> countPlowedPerimeterSquares g \<ge> 2"
      by (auto simp: canPlow_def isOpen_def split: if_splits)
    then have "card (openPerimeter g) \<le> 1" by (simp add: count_eq_card)
    moreover have "card (insert (x, y) (openPerimeter g)) \<le> Suc (card (openPerimeter g))"
      by (rule card_insert_le_m1) simp_all
    ultimately show ?thesis using True
      by (simp add: perimeterOk_def openPerimeter_carve [OF wf ib])
  qed
qed

lemma no2x2Open_carve:
  assumes wf: "wfGrid g" and ib: "inBounds g x y" and ok: "no2x2Open g" and cp: "canPlow g x y"
  shows "no2x2Open (g\<lparr>grid := setCell (grid g) x y 1\<rparr>)"
proof (cases "isOpen g x y")
  case True
  then have "isOpen (g\<lparr>grid := setCell (grid g) x y 1\<rparr>) x' y' = isOpen g x' y'" for x' y'
    by (auto simp: isOpen_carve [OF wf ib])
  with ok show ?thesis by (simp add: no2x2Open_def)
next
  case False
  with cp have c: "check2x2Block g x y (x - 1) (y - 1) x y"
       "check2x2Block g x y x (y - 1) (x + 1) y"
       "check2x2Block g x y (x - 1) y x (y + 1)"
       "check2x2Block g x y x y (x + 1) (y + 1)"
    by (auto simp: canPlow_def isOpen_def split: if_splits)
  have c1: "check2x2Block g x y (x - 1) (y - 1) ((x - 1) + 1) ((y - 1) + 1)" using c(1) by simp
  have c2: "check2x2Block g x y x (y - 1) (x + 1) ((y - 1) + 1)" using c(2) by simp
  have c3: "check2x2Block g x y (x - 1) y ((x - 1) + 1) (y + 1)" using c(3) by simp
  note cs = c1 [unfolded check2x2Block_iff] c2 [unfolded check2x2Block_iff]
            c3 [unfolded check2x2Block_iff] c(4) [unfolded check2x2Block_iff]
  show ?thesis
    unfolding no2x2Open_def
  proof (intro ballI)
    fix cx cy assume b: "cx \<in> {0..width (g\<lparr>grid := setCell (grid g) x y 1\<rparr>) - 2}"
       "cy \<in> {0..height (g\<lparr>grid := setCell (grid g) x y 1\<rparr>) - 2}"
    then have bb: "0 \<le> cx" "cx + 1 < width g" "0 \<le> cy" "cy + 1 < height g" by auto
    from ok b have old: "\<not> (isOpen g cx cy \<and> isOpen g (cx + 1) cy \<and> isOpen g cx (cy + 1) \<and> isOpen g (cx + 1) (cy + 1))"
      by (simp add: no2x2Open_def)
    consider "cx = x - 1 \<and> cy = y - 1" | "cx = x \<and> cy = y - 1" | "cx = x - 1 \<and> cy = y" | "cx = x \<and> cy = y"
      | "\<not> (cx \<in> {x - 1, x} \<and> cy \<in> {y - 1, y})" by auto
    then show "\<not> (isOpen (g\<lparr>grid := setCell (grid g) x y 1\<rparr>) cx cy \<and>
              isOpen (g\<lparr>grid := setCell (grid g) x y 1\<rparr>) (cx + 1) cy \<and>
              isOpen (g\<lparr>grid := setCell (grid g) x y 1\<rparr>) cx (cy + 1) \<and>
              isOpen (g\<lparr>grid := setCell (grid g) x y 1\<rparr>) (cx + 1) (cy + 1))"
    proof cases
      case 1 with cs(1) bb show ?thesis unfolding isOpen_carve [OF wf ib] by (auto simp: isOpen_def)
    next
      case 2 with cs(2) bb show ?thesis unfolding isOpen_carve [OF wf ib] by (auto simp: isOpen_def)
    next
      case 3 with cs(3) bb show ?thesis unfolding isOpen_carve [OF wf ib] by (auto simp: isOpen_def)
    next
      case 4 with cs(4) bb show ?thesis unfolding isOpen_carve [OF wf ib] by (auto simp: isOpen_def)
    next
      case 5 with old show ?thesis unfolding isOpen_carve [OF wf ib] by auto
    qed
  qed
qed

lemma frame_wfGrid:
  "width g' = width g \<Longrightarrow> height g' = height g \<Longrightarrow> grid g' = grid g \<Longrightarrow> wfGrid g' = wfGrid g"
  by (simp add: wfGrid_def)

lemma frame_no2x2Open:
  "width g' = width g \<Longrightarrow> height g' = height g \<Longrightarrow> grid g' = grid g \<Longrightarrow> no2x2Open g' = no2x2Open g"
  by (simp add: no2x2Open_def isOpen_def)

lemma frame_perimeterOk:
  "width g' = width g \<Longrightarrow> height g' = height g \<Longrightarrow> grid g' = grid g \<Longrightarrow> perimeterOk g' = perimeterOk g"
  by (simp add: perimeterOk_def openPerimeter_eq isOpen_def inBounds_def isOnPerimeter_def)

lemma movementTarget_inBounds:
  assumes "inBounds g (fst (tractorPosition g)) (snd (tractorPosition g))"
    and "movementTarget g = (x, y, d)"
  shows "inBounds g x y"
  using assms
  by (cases "tractorPosition g") (auto simp: movementTarget_def inBounds_def split: if_splits)

lemma handleMovement_cases:
  assumes "inBounds g (fst (tractorPosition g)) (snd (tractorPosition g))"
  shows "handleMovement g = g \<or>
         (\<exists>x y. inBounds g x y \<and> canPlow g x y \<and> tractorPosition (handleMovement g) = (x, y) \<and>
                 width (handleMovement g) = width g \<and> height (handleMovement g) = height g \<and>
                 grid (handleMovement g) = grid (plow g x y))"
proof -
  obtain x y d where t: "movementTarget g = (x, y, d)" by (cases "movementTarget g") auto
  have ib: "inBounds g x y" using assms t by (rule movementTarget_inBounds)
  show ?thesis
  proof (cases "handleMovement g = g")
    case False
    then have "canPlow g x y" using t
      by (cases "tractorPosition g") (auto simp: handleMovement_def split: if_splits)
    moreover have "tractorPosition (handleMovement g) = (x, y) \<and>
                 width (handleMovement g) = width g \<and> height (handleMovement g) = height g \<and>
                 grid (handleMovement g) = grid (plow g x y)"
      using False t
      by (cases "tractorPosition g"; cases d) (auto simp: handleMovement_def plow_def Let_def split: if_splits)
    ultimately show ?thesis using ib by blast
  qed simp
qed

lemma gridInv_plow:
  assumes "gridInv g" "inBounds g x y" "canPlow g x y"
    and g': "width g' = width g" "height g' = height g" "grid g' = grid (plow g x y)"
       "tractorPosition g' = (x, y)"
  shows "gridInv g'"
proof -
  let ?p = "g\<lparr>grid := setCell (grid g) x y 1\<rparr>"
  from assms(1) have wf: "wfGrid g" and n: "no2x2Open g" and p: "perimeterOk g"
    by (simp_all add: gridInv_def)
  have e: "width g' = width ?p" "height g' = height ?p" "grid g' = grid ?p"
    using g' by (simp_all add: plow_def)
  have "wfGrid ?p" using wf by (rule wfGrid_setCell)
  moreover have "no2x2Open ?p" using wf assms(2) n assms(3) by (rule no2x2Open_carve)
  moreover have "perimeterOk ?p" using wf assms(2) p assms(3) by (rule perimeterOk_carve)
  moreover have "inBounds g' x y" using assms(2) g'(1,2) by (simp add: inBounds_def)
  ultimately show ?thesis
    unfolding gridInv_def frame_wfGrid [OF e] frame_no2x2Open [OF e] frame_perimeterOk [OF e] g'(4)
    by simp
qed

lemma gridInv_handleMovement:
  assumes "gridInv g"
  shows "gridInv (handleMovement g)"
proof -
  from assms have ib: "inBounds g (fst (tractorPosition g)) (snd (tractorPosition g))"
    by (simp add: gridInv_def)
  from handleMovement_cases [OF ib] show ?thesis
  proof
    assume "handleMovement g = g" with assms show ?thesis by simp
  next
    assume "\<exists>x y. inBounds g x y \<and> canPlow g x y \<and> tractorPosition (handleMovement g) = (x, y) \<and>
                 width (handleMovement g) = width g \<and> height (handleMovement g) = height g \<and>
                 grid (handleMovement g) = grid (plow g x y)"
    then obtain x y where "inBounds g x y" "canPlow g x y" "tractorPosition (handleMovement g) = (x, y)"
      "width (handleMovement g) = width g" "height (handleMovement g) = height g"
      "grid (handleMovement g) = grid (plow g x y)" by blast
    with assms show ?thesis using gridInv_plow by blast
  qed
qed

lemma gridInv_events:
  assumes "gridInv g"
  shows "gridInv (g\<lparr>keys := ks, isMoving := mv, gameMode := gm\<rparr>)"
proof -
  let ?g = "g\<lparr>keys := ks, isMoving := mv, gameMode := gm\<rparr>"
  have e: "width ?g = width g" "height ?g = height g" "grid ?g = grid g" by simp_all
  have "inBounds ?g = inBounds g" by (simp add: inBounds_def fun_eq_iff)
  with assms show ?thesis
    unfolding gridInv_def frame_wfGrid [OF e] frame_no2x2Open [OF e] frame_perimeterOk [OF e]
    by simp
qed

lemma replicate_wf:
  assumes "1 \<le> w" "1 \<le> h"
  shows "wfGrid \<lparr> width = w, height = h, grid = replicate (nat h) (replicate (nat w) 0),
                  tractorPosition = tp, tractorDirection = td, startPosition = sp,
                  finishPosition = fp, gameMode = gm, isMoving = mv, keys = ks \<rparr>"
  using assms by (simp add: wfGrid_def list_all_iff)

lemma gridInv_newGame:
  assumes "newGame w h = Some g"
  shows "gridInv g"
proof -
  from assms have wh: "1 \<le> w" "1 \<le> h" by (auto simp: newGame_def split: if_splits)
  let ?b = "\<lparr> width = w, height = h, grid = replicate (nat h) (replicate (nat w) 0),
                  tractorPosition = (w div 2, h div 2), tractorDirection = DRight, startPosition = None,
                  finishPosition = None, gameMode = ''farmer'', isMoving = False, keys = [] \<rparr>"
  have g: "g = ?b\<lparr>grid := setCell (grid ?b) (w div 2) (h div 2) 1\<rparr>"
    using assms by (auto simp: newGame_def split: if_splits)
  have wfb: "wfGrid ?b" using wh by (rule replicate_wf)
  have ibb: "inBounds ?b (w div 2) (h div 2)" using wh by (auto simp: inBounds_def)
  have closed: "\<not> isOpen ?b x y" for x y
    by (auto simp: isOpen_def cellAt_def)
  have op: "isOpen g x y = (x = w div 2 \<and> y = h div 2)" for x y
    unfolding g isOpen_carve [OF wfb ibb] using closed by simp
  have "wfGrid g" unfolding g using wfb by (rule wfGrid_setCell)
  moreover have "inBounds g (w div 2) (h div 2)" using ibb by (simp add: g inBounds_def)
  moreover have "tractorPosition g = (w div 2, h div 2)" by (simp add: g)
  moreover have "no2x2Open g" by (auto simp: no2x2Open_def op)
  moreover have "openPerimeter g \<subseteq> {(w div 2, h div 2)}"
    by (auto simp: openPerimeter_eq op)
  then have "card (openPerimeter g) \<le> card {(w div 2, h div 2)}"
    by (intro card_mono) simp_all
  then have "perimeterOk g" by (simp add: perimeterOk_def)
  ultimately show ?thesis by (simp add: gridInv_def)
qed

lemma carved_gridInv: "carved w h g \<Longrightarrow> gridInv g"
proof (induction rule: carved.induct)
  case (carved_new g)
  then show ?case by (rule gridInv_newGame)
next
  case (carved_move g ks mv gm)
  then show ?case by (intro gridInv_handleMovement gridInv_events)
qed

lemma newGame3: "newGame 3 3 = Some fresh3"
  by (simp add: newGame_def fresh3_def setCell_def eval_nat_numeral)

text \<open>
  Claim C3. In a well-formed grid where no 2x2 block inside the grid is fully open and at
  most two perimeter cells are open, plowing a cell of the grid that \<open>canPlow\<close> approves
  leaves both properties true. Hence both hold in every game reached from a fresh one
  (every cell corn but the tractor's) by any number of \<open>handleMovement\<close> calls, whose
  carve is guarded by \<open>canPlow\<close>.
\<close>

theorem canPlow_preserves_carving_invariants:
  "(wfGrid g \<and> inBounds g x y \<and> no2x2Open g \<and> perimeterOk g \<and> canPlow g x y \<longrightarrow>
      no2x2Open (plow g x y) \<and> perimeterOk (plow g x y)) \<and>
   (carved w h g' \<longrightarrow> no2x2Open g' \<and> perimeterOk g')"
proof (intro conjI impI)
  assume a: "wfGrid g \<and> inBounds g x y \<and> no2x2Open g \<and> perimeterOk g \<and> canPlow g x y"
  then show "no2x2Open (plow g x y)" unfolding plow_def by (intro no2x2Open_carve) simp_all
  from a show "perimeterOk (plow g x y)" unfolding plow_def by (intro perimeterOk_carve) simp_all
next
  assume "carved w h g'"
  then have "gridInv g'" by (rule carved_gridInv)
  then show "no2x2Open g'" "perimeterOk g'" by (simp_all add: gridInv_def)
qed

text \<open>
  The fresh 3x3 game, the cell above the tractor, and the game after one press of \<open>w\<close>.
\<close>

theorem canPlow_preserves_carving_invariants_witness:
  "wfGrid fresh3 \<and> inBounds fresh3 1 0 \<and> no2x2Open fresh3 \<and> perimeterOk fresh3 \<and> canPlow fresh3 1 0 \<and>
   no2x2Open (plow fresh3 1 0) \<and> perimeterOk (plow fresh3 1 0) \<and>
   carved 3 3 (handleMovement (fresh3\<lparr>keys := [(''w'', True)], isMoving := False, gameMode := ''farmer''\<rparr>)) \<and>
   no2x2Open (handleMovement (fresh3\<lparr>keys := [(''w'', True)], isMoving := False, gameMode := ''farmer''\<rparr>)) \<and>
   perimeterOk (handleMovement (fresh3\<lparr>keys := [(''w'', True)], isMoving := False, gameMode := ''farmer''\<rparr>)) \<and>
   grid (handleMovement (fresh3\<lparr>keys := [(''w'', True)], isMoving := False, gameMode := ''farmer''\<rparr>))
     = [[0,1,0],[0,1,0],[0,0,0]]"
proof -
  let ?g1 = "handleMovement (fresh3\<lparr>keys := [(''w'', True)], isMoving := False, gameMode := ''farmer''\<rparr>)"
  have c0: "carved 3 3 fresh3" using newGame3 by (rule carved_new)
  then have c1: "carved 3 3 ?g1" by (rule carved_move)
  have i0: "gridInv fresh3" using newGame3 by (rule gridInv_newGame)
  have "canPlow fresh3 1 0" by code_simp
  moreover have "inBounds fresh3 1 0" by code_simp
  ultimately have h: "wfGrid fresh3 \<and> inBounds fresh3 1 0 \<and> no2x2Open fresh3 \<and> perimeterOk fresh3 \<and> canPlow fresh3 1 0"
    using i0 by (simp add: gridInv_def)
  have gr: "grid ?g1 = [[0,1,0],[0,1,0],[0,0,0]]" by code_simp
  from canPlow_preserves_carving_invariants [of fresh3 1 0 3 3 ?g1] h c1 gr
  show ?thesis by blast
qed

section \<open>Wall following\<close>

lemma scored_filter:
  "map fst (filter (\<lambda>sm. P (snd sm)) (map (\<lambda>m. (m, f m)) ms)) = filter (\<lambda>m. P (f m)) ms"
  by (induction ms) auto

lemma map_snd_scored: "map snd (map (\<lambda>m. (m, f m)) ms) = map f ms"
  by (induction ms) auto

lemma best_by_max:
  "map fst (filter (\<lambda>sm. Num (snd sm) = mathMax (map snd (map (\<lambda>m. (m, f m)) ms)))
              (map (\<lambda>m. (m, f m)) ms)) =
   filter (\<lambda>m. Num (f m) = mathMax (map f ms)) ms"
  unfolding map_snd_scored
  by (rule scored_filter [where P = "\<lambda>s. Num s = mathMax (map f ms)"])

lemma Num_eq_mathMax:
  "m \<in> set ms \<Longrightarrow> (Num (f m) = mathMax (map f ms)) = (\<forall>m'\<in>set ms. f m' \<le> f m)"
proof -
  assume m: "m \<in> set ms"
  then have ne: "map f ms \<noteq> []" by auto
  have fin: "finite (f ` set ms)" by simp
  have "(f m = Max (f ` set ms)) = (\<forall>m'\<in>set ms. f m' \<le> f m)"
  proof
    assume "f m = Max (f ` set ms)"
    then show "\<forall>m'\<in>set ms. f m' \<le> f m" using fin by auto
  next
    assume a: "\<forall>m'\<in>set ms. f m' \<le> f m"
    show "f m = Max (f ` set ms)"
      by (rule Max_eqI [symmetric]) (use a m in auto)
  qed
  then show ?thesis using ne by (simp add: mathMax_def)
qed

lemma wallFollowing_moves:
  "moves (wallFollowingLogic ms ld md) =
     filter (\<lambda>m. \<forall>m'\<in>set ms. scoreWallFollowing m' ld md \<le> scoreWallFollowing m ld md) ms"
proof -
  have "moves (wallFollowingLogic ms ld md) =
          filter (\<lambda>m. Num (scoreWallFollowing m ld md) = mathMax (map (\<lambda>m. scoreWallFollowing m ld md) ms)) ms"
    unfolding wallFollowingLogic_def Let_def blockResult.sel by (rule best_by_max)
  also have "\<dots> = filter (\<lambda>m. \<forall>m'\<in>set ms. scoreWallFollowing m' ld md \<le> scoreWallFollowing m ld md) ms"
    by (rule filter_cong [OF refl]) (rule Num_eq_mathMax)
  finally show ?thesis .
qed

lemma score_right:
  "scoreWallFollowing (Move x y t) (Some d) ''right'' =
     (if t = rightTurns d then 4 else if t = d then 3 else if t = leftTurns d then 2 else 1)"
  by (cases d; cases t) (simp_all add: scoreWallFollowing_def)

lemma score_left:
  "scoreWallFollowing (Move x y t) (Some d) ''left'' =
     (if t = leftTurns d then 4 else if t = d then 3 else if t = rightTurns d then 2 else 1)"
  by (cases d; cases t) (simp_all add: scoreWallFollowing_def)

lemma turns_distinct:
  "rightTurns d \<noteq> d" "leftTurns d \<noteq> d" "backTurns d \<noteq> d" "rightTurns d \<noteq> leftTurns d"
  "rightTurns d \<noteq> backTurns d" "leftTurns d \<noteq> backTurns d"
  by (cases d; simp)+

text \<open>
  Claim C7. With a last direction \<open>d\<close>, the score of \<open>scoreWallFollowing\<close> in mode
  \<open>right\<close> ranks the right turn above straight above the left turn above the reverse, and
  in mode \<open>left\<close> the left turn above straight above the right turn above the reverse
  (the turns are those of the tables of \<open>getTurnType\<close>). \<open>wallFollowingLogic\<close> keeps
  exactly the candidates whose score no other candidate exceeds, in their order; among
  straight, right turn and left turn in mode \<open>right\<close> it keeps the right-turn moves only.
\<close>

theorem wallFollowing_ranks_and_keeps_top:
  "(scoreWallFollowing (Move x1 y1 (rightTurns d)) (Some d) ''right''
      > scoreWallFollowing (Move x2 y2 d) (Some d) ''right'' \<and>
    scoreWallFollowing (Move x2 y2 d) (Some d) ''right''
      > scoreWallFollowing (Move x3 y3 (leftTurns d)) (Some d) ''right'' \<and>
    scoreWallFollowing (Move x3 y3 (leftTurns d)) (Some d) ''right''
      > scoreWallFollowing (Move x4 y4 (backTurns d)) (Some d) ''right'') \<and>
   (scoreWallFollowing (Move x1 y1 (leftTurns d)) (Some d) ''left''
      > scoreWallFollowing (Move x2 y2 d) (Some d) ''left'' \<and>
    scoreWallFollowing (Move x2 y2 d) (Some d) ''left''
      > scoreWallFollowing (Move x3 y3 (rightTurns d)) (Some d) ''left'' \<and>
    scoreWallFollowing (Move x3 y3 (rightTurns d)) (Some d) ''left''
      > scoreWallFollowing (Move x4 y4 (backTurns d)) (Some d) ''left'') \<and>
   moves (wallFollowingLogic ms (Some d) md) =
     filter (\<lambda>m. \<forall>m'\<in>set ms. scoreWallFollowing m' (Some d) md \<le> scoreWallFollowing m (Some d) md) ms \<and>
   (mdir ` set ms = {d, rightTurns d, leftTurns d} \<longrightarrow>
      moves (wallFollowingLogic ms (Some d) ''right'') = filter (\<lambda>m. mdir m = rightTurns d) ms)"
proof (intro conjI impI)
  assume a: "mdir ` set ms = {d, rightTurns d, leftTurns d}"
  have s: "scoreWallFollowing m (Some d) ''right'' =
     (if mdir m = rightTurns d then 4 else if mdir m = d then 3 else if mdir m = leftTurns d then 2 else 1)" for m
    using score_right [of "mx m" "my m" "mdir m" d] by simp
  from a obtain r where r: "r \<in> set ms" "mdir r = rightTurns d" by (metis imageE insertCI)
  have "(\<forall>m'\<in>set ms. scoreWallFollowing m' (Some d) ''right'' \<le> scoreWallFollowing m (Some d) ''right'')
        = (mdir m = rightTurns d)" for m
  proof
    assume "\<forall>m'\<in>set ms. scoreWallFollowing m' (Some d) ''right'' \<le> scoreWallFollowing m (Some d) ''right''"
    with r have "scoreWallFollowing r (Some d) ''right'' \<le> scoreWallFollowing m (Some d) ''right''" by blast
    then show "mdir m = rightTurns d" using r(2) by (simp add: s split: if_splits)
  next
    assume "mdir m = rightTurns d"
    then show "\<forall>m'\<in>set ms. scoreWallFollowing m' (Some d) ''right'' \<le> scoreWallFollowing m (Some d) ''right''"
      by (simp add: s)
  qed
  then show "moves (wallFollowingLogic ms (Some d) ''right'') = filter (\<lambda>m. mdir m = rightTurns d) ms"
    by (simp add: wallFollowing_moves)
qed (simp_all add: score_right score_left turns_distinct turns_distinct [symmetric] wallFollowing_moves)

text \<open>Heading right at a junction with the ways right, down and up open: down is kept.\<close>

theorem wallFollowing_ranks_and_keeps_top_witness:
  "mdir ` set [Move 2 1 DRight, Move 1 2 DDown, Move 1 0 DUp] = {DRight, rightTurns DRight, leftTurns DRight} \<and>
   moves (wallFollowingLogic [Move 2 1 DRight, Move 1 2 DDown, Move 1 0 DUp] (Some DRight) ''right'')
     = [Move 1 2 DDown]"
proof -
  have h: "mdir ` set [Move 2 1 DRight, Move 1 2 DDown, Move 1 0 DUp]
             = {DRight, rightTurns DRight, leftTurns DRight}" by auto
  from wallFollowing_ranks_and_keeps_top
         [of 0 0 DRight 0 0 0 0 0 0 "[Move 2 1 DRight, Move 1 2 DDown, Move 1 0 DUp]" "''right''"]
  have "mdir ` set [Move 2 1 DRight, Move 1 2 DDown, Move 1 0 DUp]
             = {DRight, rightTurns DRight, leftTurns DRight} \<longrightarrow>
        moves (wallFollowingLogic [Move 2 1 DRight, Move 1 2 DDown, Move 1 0 DUp] (Some DRight) ''right'')
          = filter (\<lambda>m. mdir m = rightTurns DRight) [Move 2 1 DRight, Move 1 2 DDown, Move 1 0 DUp]"
    by (elim conjE)
  with h have "moves (wallFollowingLogic [Move 2 1 DRight, Move 1 2 DDown, Move 1 0 DUp] (Some DRight) ''right'')
          = [Move 1 2 DDown]" by simp
  with h show ?thesis by (intro conjI)
qed

section \<open>Applicability of the TowardExit block\<close>

lemma jsLess_min_max:
  "xs \<noteq> [] \<Longrightarrow> jsLess (mathMin xs) (mathMax xs) = (\<exists>a\<in>set xs. \<exists>b\<in>set xs. a < b)"
proof -
  assume ne: "xs \<noteq> []"
  then have s: "set xs \<noteq> {}" "finite (set xs)" by simp_all
  have "(Min (set xs) < Max (set xs)) = (\<exists>a\<in>set xs. \<exists>b\<in>set xs. a < b)"
  proof
    assume "Min (set xs) < Max (set xs)"
    then show "\<exists>a\<in>set xs. \<exists>b\<in>set xs. a < b"
      using Min_in [OF s(2,1)] Max_in [OF s(2,1)] by blast
  next
    assume "\<exists>a\<in>set xs. \<exists>b\<in>set xs. a < b"
    then obtain a b where ab: "a \<in> set xs" "b \<in> set xs" "a < b" by blast
    have "Min (set xs) \<le> a" using ab(1) by simp
    moreover have "b \<le> Max (set xs)" using ab(2) by simp
    ultimately show "Min (set xs) < Max (set xs)" using ab(3) by order
  qed
  with ne show ?thesis by (simp add: mathMin_def mathMax_def)
qed

lemma distanceTo_less:
  "(distanceTo f x y < distanceTo f x' y') =
     ((fst f - x) * (fst f - x) + (snd f - y) * (snd f - y)
        < (fst f - x') * (fst f - x') + (snd f - y') * (snd f - y'))"
  unfolding distanceTo_def Let_def real_sqrt_less_iff of_int_less_iff ..

lemma towardExitApplicable_iff:
  "towardExitApplicable currentPos (Some f) ms =
     (closerMoves currentPos f ms \<noteq> [] \<and>
      (length (closerMoves currentPos f ms) = 1 \<or>
       (\<exists>a\<in>set (closerMoves currentPos f ms). \<exists>b\<in>set (closerMoves currentPos f ms).
          distanceTo f (mx a) (my a) < distanceTo f (mx b) (my b))))"
proof (cases "closerMoves currentPos f ms = []")
  case True
  then show ?thesis by (simp add: towardExitApplicable_def closerMoves_def Let_def)
next
  case False
  then have ne: "map (\<lambda>m. distanceTo f (mx m) (my m)) (closerMoves currentPos f ms) \<noteq> []" by simp
  have "towardExitApplicable currentPos (Some f) ms =
          (jsLess (mathMin (map (\<lambda>m. distanceTo f (mx m) (my m)) (closerMoves currentPos f ms)))
                  (mathMax (map (\<lambda>m. distanceTo f (mx m) (my m)) (closerMoves currentPos f ms))) \<or>
           length (closerMoves currentPos f ms) = 1)"
    using False unfolding towardExitApplicable_def closerMoves_def Let_def by simp
  also have "\<dots> = ((\<exists>a\<in>set (closerMoves currentPos f ms). \<exists>b\<in>set (closerMoves currentPos f ms).
          distanceTo f (mx a) (my a) < distanceTo f (mx b) (my b)) \<or> length (closerMoves currentPos f ms) = 1)"
    unfolding jsLess_min_max [OF ne] by auto
  finally show ?thesis using False by auto
qed

text \<open>
  Claim C2 as stated fails: at \<open>(0, 0)\<close> with the exit at \<open>(2, 2)\<close> both candidates are
  strictly closer to the exit than the current position, at the same distance, and the
  block is not applicable.
\<close>

theorem towardExit_applicable_counterexample:
  "distanceTo (2, 2) (mx (Move 1 0 DRight)) (my (Move 1 0 DRight)) < distanceTo (2, 2) 0 0 \<and>
   isBlockApplicable \<lparr>blockType = ''towardExit'', weight = 1, mode = None\<rparr> diagonalCtx
     [Move 1 0 DRight, Move 0 1 DDown] = Some False"
  by (simp add: isBlockApplicable_def towardExitApplicable_def diagonalCtx_def distanceTo_def
        mathMin_def mathMax_def)

text \<open>
  Claim C2, amended. With an exit set, the TowardExit block is applicable if and only if
  at least one candidate is strictly closer to the exit than the current position and,
  among the strictly closer candidates, either there is exactly one or two of them differ
  in their distance to the exit.
\<close>

theorem towardExit_applicable_iff:
  assumes "blockType b = ''towardExit''" and "cFinish c = Some f"
  shows "isBlockApplicable b c ms =
     Some (closerMoves (cPos c) f ms \<noteq> [] \<and>
           (length (closerMoves (cPos c) f ms) = 1 \<or>
            (\<exists>m1\<in>set (closerMoves (cPos c) f ms). \<exists>m2\<in>set (closerMoves (cPos c) f ms).
               distanceTo f (mx m1) (my m1) < distanceTo f (mx m2) (my m2))))"
  using assms by (simp add: isBlockApplicable_def towardExitApplicable_iff)

text \<open>The exit at \<open>(2, 0)\<close>: only the move right is closer, and the block is applicable.\<close>

theorem towardExit_applicable_iff_witness:
  "blockType \<lparr>blockType = ''towardExit'', weight = 1, mode = None\<rparr> = ''towardExit'' \<and>
   cFinish (diagonalCtx\<lparr>cFinish := Some (2, 0)\<rparr>) = Some (2, 0) \<and>
   closerMoves (cPos (diagonalCtx\<lparr>cFinish := Some (2, 0)\<rparr>)) (2, 0) [Move 1 0 DRight, Move 0 1 DDown]
     = [Move 1 0 DRight] \<and>
   isBlockApplicable \<lparr>blockType = ''towardExit'', weight = 1, mode = None\<rparr>
     (diagonalCtx\<lparr>cFinish := Some (2, 0)\<rparr>) [Move 1 0 DRight, Move 0 1 DDown] = Some True"
proof -
  have c: "closerMoves (cPos (diagonalCtx\<lparr>cFinish := Some (2, 0)\<rparr>)) (2, 0) [Move 1 0 DRight, Move 0 1 DDown]
     = [Move 1 0 DRight]"
    by (simp add: closerMoves_def diagonalCtx_def distanceTo_less)
  have "isBlockApplicable \<lparr>blockType = ''towardExit'', weight = 1, mode = None\<rparr>
     (diagonalCtx\<lparr>cFinish := Some (2, 0)\<rparr>) [Move 1 0 DRight, Move 0 1 DDown] = Some True"
    using towardExit_applicable_iff [of "\<lparr>blockType = ''towardExit'', weight = 1, mode = None\<rparr>"
        "diagonalCtx\<lparr>cFinish := Some (2, 0)\<rparr>" "(2, 0)" "[Move 1 0 DRight, Move 0 1 DDown]"]
    unfolding c by simp
  with c show ?thesis by simp
qed

section \<open>Breadth-first and depth-first search\<close>

lemma reconstructPath_chain:
  "isChain par bs \<Longrightarrow> reconstructPath par (hd bs) acc = Some (rev bs @ acc)"
proof (induction par bs arbitrary: acc rule: isChain.induct)
  case (1 par)
  then show ?case by simp
next
  case (2 par c)
  then show ?case by (simp add: reconstructPath.simps)
next
  case (3 par c d cs)
  then have "reconstructPath par d (c # acc) = Some (rev (d # cs) @ c # acc)" by simp
  with 3 show ?case by (subst reconstructPath.simps) simp
qed

lemma isChain_upd:
  "isChain par bs \<Longrightarrow> n \<notin> set bs \<Longrightarrow> isChain (par(n \<mapsto> c)) bs"
  by (induction par bs rule: isChain.induct) auto

lemma openPath_snoc:
  "openPath g (p @ [n]) = (if p = [] then openCell g n else openPath g p \<and> adjacent (last p) n \<and> openCell g n)"
  by (induction g p rule: openPath.induct) auto

lemma adjacent_directions:
  "adjacent a b = (\<exists>d\<in>set bfsDirections. b = (fst a + fst d, snd a + snd d))"
proof
  assume "adjacent a b"
  then have "(fst b = fst a \<and> (snd b = snd a + 1 \<or> snd b = snd a - 1)) \<or>
             (snd b = snd a \<and> (fst b = fst a + 1 \<or> fst b = fst a - 1))"
    unfolding adjacent_def by linarith
  then show "\<exists>d\<in>set bfsDirections. b = (fst a + fst d, snd a + snd d)"
    by (cases b) (auto simp: bfsDirections_def)
next
  assume "\<exists>d\<in>set bfsDirections. b = (fst a + fst d, snd a + snd d)"
  then show "adjacent a b" by (auto simp: bfsDirections_def adjacent_def)
qed

lemma bfsVisit_cases:
  assumes "bfsVisit g c d (q, v, par) = (q', v', par')"
  shows "(q', v', par') = (q, v, par) \<or>
         (let n = (fst c + fst d, snd c + snd d) in
            openCell g n \<and> n \<notin> v \<and> q' = q @ [n] \<and> v' = insert n v \<and> par' = par(n \<mapsto> c))"
  using assms
  by (cases c; cases d)
     (auto simp: bfsVisit_def Let_def openCell_def inBounds_def isOpen_def split: if_splits)

lemma bfsVisit_skip:
  assumes "bfsVisit g c d (q, v, par) = (q', v', par')" "openCell g (fst c + fst d, snd c + snd d)"
  shows "(fst c + fst d, snd c + snd d) \<in> v'"
  using assms
  by (cases c; cases d)
     (auto simp: bfsVisit_def Let_def openCell_def inBounds_def isOpen_def split: if_splits)

lemma closedAt_mono: "closedAt g v x \<Longrightarrow> v \<subseteq> v' \<Longrightarrow> closedAt g v' x"
  by (auto simp: closedAt_def)

lemma treeOk_insert:
  assumes t: "treeOk g s v par" and c: "c \<in> v" and n: "n \<notin> v" "openCell g n" "adjacent c n"
  shows "treeOk g s (insert n v) (par(n \<mapsto> c))"
proof -
  have ex: "\<exists>bs. isChain (par(n \<mapsto> c)) bs \<and> hd bs = x \<and> last bs = s \<and> distinct bs \<and>
                 set bs \<subseteq> insert n v \<and> openPath g (rev bs)" if x: "x \<in> v" for x
  proof -
    from t x obtain bs where bs: "isChain par bs" "hd bs = x" "last bs = s" "distinct bs" "set bs \<subseteq> v"
        "openPath g (rev bs)" unfolding treeOk_def by blast
    from bs(5) n(1) have "n \<notin> set bs" by auto
    with bs(1) have "isChain (par(n \<mapsto> c)) bs" by (rule isChain_upd)
    with bs show ?thesis by blast
  qed
  from t c obtain bs where bs: "isChain par bs" "hd bs = c" "last bs = s" "distinct bs" "set bs \<subseteq> v"
      "openPath g (rev bs)" unfolding treeOk_def by blast
  from bs(1) have ne: "bs \<noteq> []" by auto
  from bs(5) n(1) have nn: "n \<notin> set bs" by auto
  have ch: "isChain (par(n \<mapsto> c)) (n # bs)"
    using isChain_upd [OF bs(1) nn, of c] bs(2) ne by (cases bs) auto
  have "last (rev bs) = c" using bs(2) ne by (simp add: last_rev)
  then have op: "openPath g (rev (n # bs))"
    using bs(6) n(2,3) ne by (simp add: openPath_snoc)
  have "isChain (par(n \<mapsto> c)) (n # bs) \<and> hd (n # bs) = n \<and> last (n # bs) = s \<and> distinct (n # bs) \<and>
        set (n # bs) \<subseteq> insert n v \<and> openPath g (rev (n # bs))"
    using ch op bs(3,4,5) nn ne by auto
  then have exn: "\<exists>bs. isChain (par(n \<mapsto> c)) bs \<and> hd bs = n \<and> last bs = s \<and> distinct bs \<and>
                 set bs \<subseteq> insert n v \<and> openPath g (rev bs)" by blast
  from t have "s \<in> v" "dom par \<subseteq> v" by (auto simp: treeOk_def)
  with ex exn show ?thesis unfolding treeOk_def by auto
qed

lemma midInv_visit:
  assumes m: "midInv g s f c q v par" and d: "d \<in> set bfsDirections"
    and b: "bfsVisit g c d (q, v, par) = (q', v', par')"
  shows "midInv g s f c q' v' par' \<and> v \<subseteq> v'"
proof -
  let ?n = "(fst c + fst d, snd c + snd d)"
  from bfsVisit_cases [OF b] show ?thesis
  proof
    assume "(q', v', par') = (q, v, par)"
    with m show ?thesis by simp
  next
    assume "let n = ?n in openCell g n \<and> n \<notin> v \<and> q' = q @ [n] \<and> v' = insert n v \<and> par' = par(n \<mapsto> c)"
    then have n: "openCell g ?n" "?n \<notin> v" and r: "q' = q @ [?n]" "v' = insert ?n v" "par' = par(?n \<mapsto> c)"
      by (simp_all add: Let_def)
    from m have t: "treeOk g s v par" and c: "c \<in> v" and q: "set q \<subseteq> v"
      and cl: "\<forall>x\<in>v - set q - {c}. x \<noteq> f \<and> closedAt g v x" by (simp_all add: midInv_def)
    have adj: "adjacent c ?n" using d unfolding adjacent_directions by blast
    have "treeOk g s v' par'" unfolding r using t c n(2,1) adj by (rule treeOk_insert)
    moreover have "\<forall>x\<in>v' - set q' - {c}. x \<noteq> f \<and> closedAt g v' x"
    proof
      fix x assume "x \<in> v' - set q' - {c}"
      then have "x \<in> v - set q - {c}" by (auto simp: r)
      with cl have "x \<noteq> f" "closedAt g v x" by auto
      then show "x \<noteq> f \<and> closedAt g v' x" using closedAt_mono [of g v x v'] by (auto simp: r)
    qed
    ultimately show ?thesis using c q unfolding midInv_def by (auto simp: r)
  qed
qed

lemma midInv_fold:
  assumes "midInv g s f c q v par" "set ds \<subseteq> set bfsDirections"
    and "fold (bfsVisit g c) ds (q, v, par) = (q', v', par')"
  shows "midInv g s f c q' v' par' \<and> v \<subseteq> v' \<and>
         (\<forall>d\<in>set ds. openCell g (fst c + fst d, snd c + snd d) \<longrightarrow> (fst c + fst d, snd c + snd d) \<in> v')"
  using assms
proof (induction ds arbitrary: q v par)
  case Nil
  then show ?case by simp
next
  case (Cons d ds)
  obtain q1 v1 p1 where s: "bfsVisit g c d (q, v, par) = (q1, v1, p1)"
    by (cases "bfsVisit g c d (q, v, par)") auto
  from Cons.prems(2) have d: "d \<in> set bfsDirections" and ds: "set ds \<subseteq> set bfsDirections" by auto
  from midInv_visit [OF Cons.prems(1) d s] have m1: "midInv g s f c q1 v1 p1" and sub: "v \<subseteq> v1" by auto
  from Cons.prems(3) have f: "fold (bfsVisit g c) ds (q1, v1, p1) = (q', v', par')" by (simp add: s)
  from Cons.IH [OF m1 ds f] have r: "midInv g s f c q' v' par'" "v1 \<subseteq> v'"
    "\<forall>d\<in>set ds. openCell g (fst c + fst d, snd c + snd d) \<longrightarrow> (fst c + fst d, snd c + snd d) \<in> v'"
    by auto
  have "openCell g (fst c + fst d, snd c + snd d) \<longrightarrow> (fst c + fst d, snd c + snd d) \<in> v'"
    using bfsVisit_skip [OF s] r(2) by auto
  with r sub show ?case by auto
qed

lemma bfsInv_expand:
  assumes i: "bfsInv g s f (c # q) v par" and c: "c \<noteq> f"
    and e: "bfsExpand g c (q, v, par) = (q', v', par')"
  shows "bfsInv g s f q' v' par'"
proof -
  from i have m: "midInv g s f c q v par"
    unfolding bfsInv_def midInv_def by auto
  from e have f: "fold (bfsVisit g c) bfsDirections (q, v, par) = (q', v', par')"
    by (simp add: bfsExpand_def)
  from midInv_fold [OF m subset_refl f] have r: "midInv g s f c q' v' par'" "v \<subseteq> v'"
    "\<forall>d\<in>set bfsDirections. openCell g (fst c + fst d, snd c + snd d) \<longrightarrow> (fst c + fst d, snd c + snd d) \<in> v'"
    by auto
  have "closedAt g v' c" unfolding closedAt_def adjacent_directions using r(3) by blast
  with r(1) c show ?thesis unfolding bfsInv_def midInv_def by auto
qed

lemma bfsInv_init: "openCell g s \<Longrightarrow> bfsInv g s f [s] {s} Map.empty"
proof -
  assume "openCell g s"
  then have "isChain Map.empty [s] \<and> hd [s] = s \<and> last [s] = s \<and> distinct [s] \<and> set [s] \<subseteq> {s} \<and>
             openPath g (rev [s])" by simp
  then have "\<exists>bs. isChain Map.empty bs \<and> hd bs = s \<and> last bs = s \<and> distinct bs \<and> set bs \<subseteq> {s} \<and>
             openPath g (rev bs)" by blast
  then show ?thesis by (simp add: bfsInv_def treeOk_def)
qed

lemma closed_contains_path:
  assumes cl: "\<forall>x\<in>v. closedAt g v x"
  shows "openPath g p \<Longrightarrow> hd p \<in> v \<Longrightarrow> set p \<subseteq> v"
proof (induction p)
  case Nil
  then show ?case by simp
next
  case (Cons c cs)
  show ?case
  proof (cases cs)
    case Nil
    with Cons.prems show ?thesis by simp
  next
    case (Cons d ds)
    with Cons.prems have c: "c \<in> v" and a: "adjacent c d" and o: "openPath g (d # ds)" by auto
    from o have "openCell g d" by (cases ds) auto
    with cl c a have "d \<in> v" unfolding closedAt_def by blast
    with Cons.IH o Cons have "set cs \<subseteq> v" by simp
    with c show ?thesis by simp
  qed
qed

lemma bfsLoop_correct:
  "bfsInv g s f q v par \<Longrightarrow>
   \<exists>r. bfsLoop g f q v par = Some r \<and>
       (case r of None \<Rightarrow> \<not> (\<exists>p. joins g s f p)
                | Some p \<Rightarrow> joins g s f p \<and> distinct p)"
proof (induction g f q v par rule: bfsLoop.induct)
  case (1 maze finish visited parent)
  then have t: "treeOk maze s visited parent" and cl: "\<forall>x\<in>visited. x \<noteq> finish \<and> closedAt maze visited x"
    by (simp_all add: bfsInv_def)
  have "\<not> (\<exists>p. joins maze s finish p)"
  proof
    assume "\<exists>p. joins maze s finish p"
    then obtain p where p: "openPath maze p" "hd p = s" "last p = finish" by (auto simp: joins_def)
    from t have "s \<in> visited" by (simp add: treeOk_def)
    with closed_contains_path [of visited maze p] cl p have "set p \<subseteq> visited" by auto
    moreover from p(1) have "p \<noteq> []" by auto
    ultimately have "last p \<in> visited" using last_in_set by blast
    with cl p(3) show False by auto
  qed
  then show ?case by simp
next
  case (2 maze finish c queue visited parent)
  show ?case
  proof (cases "c = finish")
    case True
    from "2.prems" have t: "treeOk maze s visited parent" and "c \<in> visited"
      by (auto simp: bfsInv_def)
    then obtain bs where bs: "isChain parent bs" "hd bs = c" "last bs = s" "distinct bs"
        "openPath maze (rev bs)" unfolding treeOk_def by blast
    from bs(1) have ne: "bs \<noteq> []" by auto
    from reconstructPath_chain [OF bs(1), of "[]"] bs(2)
    have "reconstructPath parent c [] = Some (rev bs)" by simp
    moreover have "joins maze s finish (rev bs)"
      using bs ne True by (simp add: joins_def hd_rev last_rev)
    ultimately show ?thesis using True bs(4) by simp
  next
    case False
    obtain q' v' p' where e: "bfsExpand maze c (queue, visited, parent) = (q', v', p')"
      by (cases "bfsExpand maze c (queue, visited, parent)") auto
    from bfsInv_expand [OF "2.prems" False e] have "bfsInv maze s finish q' v' p'" .
    from "2.IH" [OF False e [symmetric] refl this] show ?thesis using False e by simp
  qed
qed

lemma openPath_steps: "openPath g (c # ext) = (openCell g c \<and> steps g c ext)"
  by (induction ext arbitrary: c) auto

text \<open>The guard of the \<open>for\<close> loop of \<open>dfs\<close>, for the neighbour in direction \<open>d\<close>.\<close>

lemma dfs_guard:
  "(fst c + fst d \<ge> 0 \<and> fst c + fst d < width g \<and> snd c + snd d \<ge> 0 \<and> snd c + snd d < height g \<and>
    cellAt (grid g) (fst c + fst d) (snd c + snd d) = Some 1) = openCell g (fst c + fst d, snd c + snd d)"
  by (auto simp: openCell_def inBounds_def isOpen_def)

lemma dfs_sound:
  "p \<in> set (dfs g f v c path) \<Longrightarrow> \<exists>ext. p = path @ ext \<and> steps g c ext \<and> last (c # ext) = f"
proof (induction g f v c path arbitrary: p rule: dfs.induct)
  case (1 g finish visited c path)
  show ?case
  proof (cases "c = finish")
    case True
    then have "dfs g finish visited c path = [path]" by (subst dfs.simps) simp
    with "1.prems" have "p = path" by simp
    with True show ?thesis by simp
  next
    case False
    then have "dfs g finish visited c path =
        concat (map (\<lambda>d.
             let nx = fst c + fst d; ny = snd c + snd d in
             if nx \<ge> 0 \<and> nx < width g \<and> ny \<ge> 0 \<and> ny < height g \<and>
                cellAt (grid g) nx ny = Some 1 \<and> (nx, ny) \<notin> visited
             then dfs g finish (insert (nx, ny) visited) (nx, ny) (path @ [(nx, ny)])
             else []) bfsDirections)" by (subst dfs.simps) simp
    with "1.prems" obtain d where d: "d \<in> set bfsDirections"
      and gd: "0 \<le> fst c + fst d \<and> fst c + fst d < width g \<and> 0 \<le> snd c + snd d \<and> snd c + snd d < height g \<and>
          cellAt (grid g) (fst c + fst d) (snd c + snd d) = Some 1 \<and> (fst c + fst d, snd c + snd d) \<notin> visited"
      and p: "p \<in> set (dfs g finish (insert (fst c + fst d, snd c + snd d) visited)
                  (fst c + fst d, snd c + snd d) (path @ [(fst c + fst d, snd c + snd d)]))"
      by (auto simp: Let_def split: if_splits)
    let ?n = "(fst c + fst d, snd c + snd d)"
    have g: "openCell g ?n" using gd dfs_guard [of c d g] by blast
    from "1.IH" [OF False d refl refl gd p]
    obtain ext where e: "p = (path @ [?n]) @ ext" "steps g ?n ext" "last (?n # ext) = finish" by blast
    have "adjacent c ?n" using d unfolding adjacent_directions by blast
    then have "p = path @ (?n # ext) \<and> steps g c (?n # ext) \<and> last (c # ?n # ext) = finish"
      using e g by simp
    then show ?thesis by blast
  qed
qed

lemma dfs_complete:
  "steps g c ext \<Longrightarrow> last (c # ext) = f \<Longrightarrow> distinct (c # ext) \<Longrightarrow> set ext \<inter> v = {} \<Longrightarrow>
   path @ ext \<in> set (dfs g f v c path)"
proof (induction ext arbitrary: c v path)
  case Nil
  then show ?case by (subst dfs.simps) simp
next
  case (Cons d ds)
  from Cons.prems(2,3) have cf: "c \<noteq> f" by (auto split: if_splits)
  from Cons.prems(1) have a: "adjacent c d" and o: "openCell g d" and s: "steps g d ds" by auto
  from a obtain dir where dir: "dir \<in> set bfsDirections" "d = (fst c + fst dir, snd c + snd dir)"
    unfolding adjacent_directions by blast
  from Cons.prems(4) have dv: "d \<notin> v" by auto
  have "set ds \<inter> insert d v = {}" using Cons.prems(3,4) by auto
  moreover have "last (d # ds) = f" using Cons.prems(2) by simp
  moreover have "distinct (d # ds)" using Cons.prems(3) by simp
  ultimately have "(path @ [d]) @ ds \<in> set (dfs g f (insert d v) d (path @ [d]))"
    using Cons.IH [OF s] by blast
  then have in1: "path @ d # ds \<in> set (dfs g f (insert d v) d (path @ [d]))" by simp
  have gd: "0 \<le> fst c + fst dir \<and> fst c + fst dir < width g \<and> 0 \<le> snd c + snd dir \<and>
            snd c + snd dir < height g \<and> cellAt (grid g) (fst c + fst dir) (snd c + snd dir) = Some 1"
    using o dir(2) by (simp add: dfs_guard)
  have "path @ d # ds \<in> set (let nx = fst c + fst dir; ny = snd c + snd dir in
             if nx \<ge> 0 \<and> nx < width g \<and> ny \<ge> 0 \<and> ny < height g \<and>
                cellAt (grid g) nx ny = Some 1 \<and> (nx, ny) \<notin> v
             then dfs g f (insert (nx, ny) v) (nx, ny) (path @ [(nx, ny)])
             else [])"
    using gd dv in1 dir(2) by (simp add: Let_def)
  then show ?case
    using cf dir(1) by (subst dfs.simps) (simp, blast)
qed

lemma foldl_longest:
  "foldl (\<lambda>longest current. if length current > length longest then current else longest) a ps
     \<in> set (a # ps) \<and>
   (\<forall>p\<in>set (a # ps). length p \<le> length (foldl (\<lambda>longest current. if length current > length longest then current else longest) a ps))"
proof (induction ps arbitrary: a)
  case Nil
  then show ?case by simp
next
  case (Cons b ps)
  let ?f = "\<lambda>longest current. if length current > length longest then current else longest"
  show ?case
  proof (cases "length b > length a")
    case True
    with Cons.IH [of b] show ?thesis by auto
  next
    case False
    with Cons.IH [of a] show ?thesis by auto
  qed
qed

section \<open>Shortest and longest path\<close>

lemma joins_split:
  "joins g s f p \<Longrightarrow> \<exists>ext. p = s # ext \<and> openCell g s \<and> steps g s ext \<and> last (s # ext) = f"
proof -
  assume j: "joins g s f p"
  then have "p \<noteq> []" by (auto simp: joins_def)
  then obtain c ext where p: "p = c # ext" by (cases p) auto
  with j have "c = s" by (simp add: joins_def)
  with j p show ?thesis by (auto simp: joins_def openPath_steps)
qed

lemma findShortestPath_correct:
  assumes "startPosition g = Some s" "finishPosition g = Some f" "openCell g s"
  shows "\<exists>r. findShortestPath g = Some r \<and>
       (case r of None \<Rightarrow> \<not> (\<exists>p. joins g s f p) | Some p \<Rightarrow> joins g s f p \<and> distinct p)"
  using bfsLoop_correct [OF bfsInv_init [OF assms(3)], of f] assms(1,2)
  by (simp add: findShortestPath_def)

lemma brainFindShortestPath_correct:
  assumes "openCell g s"
  shows "\<exists>r. brainFindShortestPath s (Some f) g = Some r \<and>
       (case r of None \<Rightarrow> \<not> (\<exists>p. joins g s f p) | Some p \<Rightarrow> joins g s f p \<and> distinct p)"
  using bfsLoop_correct [OF bfsInv_init [OF assms], of f]
  by (simp add: brainFindShortestPath_def)

lemma dfs_paths_join:
  assumes "openCell g s" "p \<in> set (dfs g f {s} s [s])"
  shows "joins g s f p"
proof -
  from dfs_sound [OF assms(2)] obtain ext where "p = [s] @ ext" "steps g s ext" "last (s # ext) = f"
    by blast
  with assms(1) show ?thesis by (simp add: joins_def openPath_steps)
qed

lemma simple_path_found:
  assumes "joins g s f p" "distinct p"
  shows "p \<in> set (dfs g f {s} s [s])"
proof -
  from joins_split [OF assms(1)] obtain ext where e: "p = s # ext" "steps g s ext" "last (s # ext) = f"
    by blast
  with assms(2) have "distinct (s # ext)" "set ext \<inter> {s} = {}" by auto
  from dfs_complete [OF e(2,3) this, of "[s]"] e(1) show ?thesis by simp
qed

lemma findLongestPath_cases:
  assumes "startPosition g = Some s" "finishPosition g = Some f"
  shows "(dfs g f {s} s [s] = [] \<and> findLongestPath g = None) \<or>
         (\<exists>b. findLongestPath g = Some b \<and> b \<in> set (dfs g f {s} s [s]) \<and>
              (\<forall>p\<in>set (dfs g f {s} s [s]). length p \<le> length b))"
proof (cases "dfs g f {s} s [s]")
  case Nil
  with assms show ?thesis by (simp add: findLongestPath_def)
next
  case (Cons a ps)
  with assms foldl_longest [of a ps] show ?thesis
    by (simp add: findLongestPath_def Let_def)
qed

text \<open>
  Claim C4. In a well-formed grid with the entry and the exit set and the entry an open
  cell, \<open>findShortestPath\<close> returns; it returns null exactly when \<open>findLongestPath\<close> returns
  null, which is exactly when no 4-connected path of open cells joins the entry to the
  exit; and when both return a path, the shortest is at most as long as the longest.
\<close>

theorem shortest_and_longest_path_agree:
  assumes "wfGrid g" and "startPosition g = Some s" and "finishPosition g = Some f"
    and "openCell g s"
  shows "\<exists>sp. findShortestPath g = Some sp \<and>
           ((sp = None) = (findLongestPath g = None)) \<and>
           ((sp = None) = (\<not> (\<exists>p. joins g s f p))) \<and>
           (\<forall>a b. sp = Some a \<and> findLongestPath g = Some b \<longrightarrow> length a \<le> length b)"
proof -
  from findShortestPath_correct [OF assms(2,3,4)] obtain r where r: "findShortestPath g = Some r"
    "case r of None \<Rightarrow> \<not> (\<exists>p. joins g s f p) | Some p \<Rightarrow> joins g s f p \<and> distinct p" by blast
  note l = findLongestPath_cases [OF assms(2,3)]
  show ?thesis
  proof (cases r)
    case None
    with r(2) have no: "\<not> (\<exists>p. joins g s f p)" by simp
    have "dfs g f {s} s [s] = []"
    proof (rule ccontr)
      assume "dfs g f {s} s [s] \<noteq> []"
      then obtain p where "p \<in> set (dfs g f {s} s [s])" by (cases "dfs g f {s} s [s]") auto
      from dfs_paths_join [OF assms(4) this] no show False by blast
    qed
    with l have "findLongestPath g = None" by auto
    with r(1) None no show ?thesis by simp
  next
    case (Some a)
    with r(2) have a: "joins g s f a" "distinct a" by simp_all
    from simple_path_found [OF a] have m: "a \<in> set (dfs g f {s} s [s])" .
    with l obtain b where b: "findLongestPath g = Some b" "\<forall>p\<in>set (dfs g f {s} s [s]). length p \<le> length b"
      by auto
    with m have "length a \<le> length b" by blast
    with r(1) Some a(1) b(1) show ?thesis by auto
  qed
qed

text \<open>On the ring the two searches return the short way and the long way round.\<close>

theorem shortest_and_longest_path_agree_witness:
  "wfGrid ring3 \<and> startPosition ring3 = Some (0, 0) \<and> finishPosition ring3 = Some (2, 0) \<and>
   openCell ring3 (0, 0) \<and>
   findShortestPath ring3 = Some (Some [(0, 0), (1, 0), (2, 0)]) \<and>
   findLongestPath ring3 = Some [(0, 0), (0, 1), (0, 2), (1, 2), (2, 2), (2, 1), (2, 0)] \<and>
   (\<exists>p. joins ring3 (0, 0) (2, 0) p)"
proof -
  have h: "wfGrid ring3" "startPosition ring3 = Some (0, 0)" "finishPosition ring3 = Some (2, 0)"
    "openCell ring3 (0, 0)"
    by (simp_all add: ring3_def wfGrid_def openCell_def inBounds_def isOpen_def cellAt_def)
  have s: "findShortestPath ring3 = Some (Some [(0, 0), (1, 0), (2, 0)])"
    by (simp add: findShortestPath_def ring3_def bfsExpand_def bfsVisit_def bfsDirections_def
          cellAt_def reconstructPath.simps)
  have l: "findLongestPath ring3 = Some [(0, 0), (0, 1), (0, 2), (1, 2), (2, 2), (2, 1), (2, 0)]"
    by (simp add: findLongestPath_def ring3_def dfs.simps bfsDirections_def cellAt_def)
  from shortest_and_longest_path_agree [OF h] s have "\<exists>p. joins ring3 (0, 0) (2, 0) p"
    by auto
  with h s l show ?thesis by simp
qed

section \<open>Applicability of the CheckMap block\<close>

lemma shortest_exists:
  assumes "joins g s f p"
  shows "\<exists>p. joins g s f p \<and> (\<forall>p'. joins g s f p' \<longrightarrow> length p \<le> length p')"
  using ex_has_least_nat [of "\<lambda>p. joins g s f p" p length] assms by blast

lemma joins_length:
  assumes "joins g s f p"
  shows "(1 < length p) = (p \<noteq> [s])" and "s \<noteq> f \<Longrightarrow> 1 < length p"
proof -
  from assms have p: "p \<noteq> []" "hd p = s" "last p = f" by (auto simp: joins_def)
  then obtain ext where e: "p = s # ext" by (cases p) auto
  then show "(1 < length p) = (p \<noteq> [s])" by (cases ext) auto
  assume "s \<noteq> f"
  with e p(3) show "1 < length p" by (cases ext) auto
qed

lemma distinct_hd_last:
  assumes "distinct a" "1 < length a"
  shows "hd a \<noteq> last a"
proof -
  from assms(2) obtain x ext where e: "a = x # ext" "ext \<noteq> []" by (cases a) auto
  then have "last a \<in> set ext" by simp
  with assms(1) e show ?thesis by auto
qed

lemma checkMapApplicable_iff:
  assumes "openCell g s"
  shows "checkMapApplicable s (Some f) g =
           Some (\<exists>p. joins g s f p \<and> (\<forall>p'. joins g s f p' \<longrightarrow> length p \<le> length p') \<and> 1 < length p)"
proof -
  from brainFindShortestPath_correct [OF assms, of f] obtain r where
    r: "brainFindShortestPath s (Some f) g = Some r"
       "case r of None \<Rightarrow> \<not> (\<exists>p. joins g s f p) | Some p \<Rightarrow> joins g s f p \<and> distinct p" by blast
  have self: "s = f \<Longrightarrow> joins g s f [s]" using assms by (simp add: joins_def)
  show ?thesis
  proof (cases r)
    case None
    with r show ?thesis by (auto simp: checkMapApplicable_def)
  next
    case (Some a)
    with r(2) have a: "joins g s f a" "distinct a" by simp_all
    have "(1 < length a) = (\<exists>p. joins g s f p \<and> (\<forall>p'. joins g s f p' \<longrightarrow> length p \<le> length p') \<and> 1 < length p)"
    proof
      assume l: "1 < length a"
      have "s \<noteq> f"
      proof
        assume "s = f"
        with a(1) have "hd a = last a" by (simp add: joins_def)
        with distinct_hd_last [OF a(2) l] show False by simp
      qed
      from shortest_exists [OF a(1)] obtain p where
        "joins g s f p" "\<forall>p'. joins g s f p' \<longrightarrow> length p \<le> length p'" by blast
      with joins_length(2) [OF this(1) \<open>s \<noteq> f\<close>] show
        "\<exists>p. joins g s f p \<and> (\<forall>p'. joins g s f p' \<longrightarrow> length p \<le> length p') \<and> 1 < length p" by blast
    next
      assume "\<exists>p. joins g s f p \<and> (\<forall>p'. joins g s f p' \<longrightarrow> length p \<le> length p') \<and> 1 < length p"
      then obtain p where p: "joins g s f p" "\<forall>p'. joins g s f p' \<longrightarrow> length p \<le> length p'" "1 < length p"
        by blast
      have "s \<noteq> f"
      proof
        assume "s = f"
        from self [OF this] p(2) have "length p \<le> length [s]" by blast
        with p(3) show False by simp
      qed
      from joins_length(2) [OF a(1) this] show "1 < length a" .
    qed
    with r(1) Some show ?thesis by (simp add: checkMapApplicable_def)
  qed
qed

text \<open>
  Claim C8. In a well-formed grid with the agent on an open cell, the applicability
  predicate of the CheckMap block returns, and it returns true exactly when an exit is set
  and a shortest open-cell path from the current position to the exit exists and has more
  than one cell. In particular it returns false when no open-cell path leads to the exit.
\<close>

theorem checkMap_applicable_total:
  assumes "wfGrid (cMaze c)" and "blockType b = ''checkMap''" and "openCell (cMaze c) (cPos c)"
  shows "isBlockApplicable b c ms =
           Some (\<exists>f p. cFinish c = Some f \<and> joins (cMaze c) (cPos c) f p \<and>
                        (\<forall>p'. joins (cMaze c) (cPos c) f p' \<longrightarrow> length p \<le> length p') \<and> 1 < length p) \<and>
         ((\<nexists>f p. cFinish c = Some f \<and> joins (cMaze c) (cPos c) f p) \<longrightarrow>
            isBlockApplicable b c ms = Some False)"
proof -
  have e: "isBlockApplicable b c ms = checkMapApplicable (cPos c) (cFinish c) (cMaze c)"
    using assms(2) by (simp add: isBlockApplicable_def)
  have 1: "isBlockApplicable b c ms =
           Some (\<exists>f p. cFinish c = Some f \<and> joins (cMaze c) (cPos c) f p \<and>
                        (\<forall>p'. joins (cMaze c) (cPos c) f p' \<longrightarrow> length p \<le> length p') \<and> 1 < length p)"
  proof (cases "cFinish c")
    case None
    then show ?thesis by (simp add: e checkMapApplicable_def)
  next
    case (Some f)
    then show ?thesis by (simp add: e checkMapApplicable_iff [OF assms(3)])
  qed
  then show ?thesis by auto
qed

text \<open>
  On the ring the exit is two steps away and the block is applicable; in the corner maze
  the exit is walled in and the predicate returns false.
\<close>

theorem checkMap_applicable_total_witness:
  "wfGrid (cMaze ringCtx) \<and> blockType \<lparr>blockType = ''checkMap'', weight = 1, mode = None\<rparr> = ''checkMap'' \<and>
   openCell (cMaze ringCtx) (cPos ringCtx) \<and>
   isBlockApplicable \<lparr>blockType = ''checkMap'', weight = 1, mode = None\<rparr> ringCtx [] = Some True \<and>
   (\<exists>f p. cFinish ringCtx = Some f \<and> joins (cMaze ringCtx) (cPos ringCtx) f p \<and>
          (\<forall>p'. joins (cMaze ringCtx) (cPos ringCtx) f p' \<longrightarrow> length p \<le> length p') \<and> 1 < length p) \<and>
   wfGrid (cMaze diagonalCtx) \<and> openCell (cMaze diagonalCtx) (cPos diagonalCtx) \<and>
   isBlockApplicable \<lparr>blockType = ''checkMap'', weight = 1, mode = None\<rparr> diagonalCtx [] = Some False \<and>
   (\<nexists>f p. cFinish diagonalCtx = Some f \<and> joins (cMaze diagonalCtx) (cPos diagonalCtx) f p \<and>
          (\<forall>p'. joins (cMaze diagonalCtx) (cPos diagonalCtx) f p' \<longrightarrow> length p \<le> length p') \<and> 1 < length p)"
proof -
  let ?b = "\<lparr>blockType = ''checkMap'', weight = 1, mode = None\<rparr>"
  have r: "wfGrid (cMaze ringCtx)" "blockType ?b = ''checkMap''" "openCell (cMaze ringCtx) (cPos ringCtx)"
    by (simp_all add: ringCtx_def ring3_def wfGrid_def openCell_def inBounds_def isOpen_def cellAt_def)
  have d: "wfGrid (cMaze diagonalCtx)" "blockType ?b = ''checkMap''" "openCell (cMaze diagonalCtx) (cPos diagonalCtx)"
    by (simp_all add: diagonalCtx_def wfGrid_def openCell_def inBounds_def isOpen_def cellAt_def)
  have rt: "isBlockApplicable ?b ringCtx [] = Some True"
    by (simp add: isBlockApplicable_def checkMapApplicable_def brainFindShortestPath_def ringCtx_def
         ring3_def bfsExpand_def bfsVisit_def bfsDirections_def cellAt_def reconstructPath.simps)
  have df: "isBlockApplicable ?b diagonalCtx [] = Some False"
    by (simp add: isBlockApplicable_def checkMapApplicable_def brainFindShortestPath_def diagonalCtx_def
         bfsExpand_def bfsVisit_def bfsDirections_def cellAt_def reconstructPath.simps)
  from checkMap_applicable_total [OF r, of "[]"] rt
  have 1: "\<exists>f p. cFinish ringCtx = Some f \<and> joins (cMaze ringCtx) (cPos ringCtx) f p \<and>
          (\<forall>p'. joins (cMaze ringCtx) (cPos ringCtx) f p' \<longrightarrow> length p \<le> length p') \<and> 1 < length p"
    by simp
  from checkMap_applicable_total [OF d, of "[]"] df
  have 2: "\<nexists>f p. cFinish diagonalCtx = Some f \<and> joins (cMaze diagonalCtx) (cPos diagonalCtx) f p \<and>
          (\<forall>p'. joins (cMaze diagonalCtx) (cPos diagonalCtx) f p' \<longrightarrow> length p \<le> length p') \<and> 1 < length p"
    by simp
  from r d rt df 1 2 show ?thesis by (intro conjI)
qed

section \<open>The decision engine\<close>

lemma wallFollowing_subset: "set (moves (wallFollowingLogic ms ld md)) \<subseteq> set ms"
  by (auto simp: wallFollowingLogic_def Let_def)

lemma lineOfSight_subset: "set (moves (lineOfSightLogic ms cur fin g v)) \<subseteq> set ms"
  by (auto simp: lineOfSightLogic_def Let_def split: option.splits)

lemma towardExit_subset: "set (moves (towardExitLogic ms cur fin)) \<subseteq> set ms"
  by (auto simp: towardExitLogic_def Let_def split: option.splits)

lemma backtracking_subset: "set (moves (backtrackingLogic ms v vc md)) \<subseteq> set ms"
  by (auto simp: backtrackingLogic_def Let_def)

lemma social_subset: "set (moves (socialLogic ms cur g ps i md)) \<subseteq> set ms"
  by (auto simp: socialLogic_def Let_def split: if_splits)

lemma checkMap_total:
  assumes "openCell g cur"
  shows "\<exists>r. checkMapLogic ms cur fin g = Some r \<and> set (moves r) \<subseteq> set ms"
proof (cases fin)
  case None
  then show ?thesis by (simp add: checkMapLogic_def)
next
  case (Some f)
  from brainFindShortestPath_correct [OF assms, of f] obtain sp where
    "brainFindShortestPath cur (Some f) g = Some sp" by blast
  with Some show ?thesis
    by (auto simp: checkMapLogic_def Let_def split: option.splits)
qed

lemma checkMapApplicable_total:
  assumes "openCell g cur"
  shows "\<exists>a. checkMapApplicable cur fin g = Some a"
proof (cases fin)
  case None
  then show ?thesis by (auto simp: checkMapApplicable_def)
next
  case (Some f)
  from brainFindShortestPath_correct [OF assms, of f] obtain sp where
    "brainFindShortestPath cur (Some f) g = Some sp" by blast
  with Some show ?thesis by (auto simp: checkMapApplicable_def)
qed

lemma isBlockApplicable_total:
  assumes "openCell (cMaze c) (cPos c)"
  shows "\<exists>a. isBlockApplicable b c ms = Some a"
  using checkMapApplicable_total [OF assms, of "cFinish c"]
  by (auto simp: isBlockApplicable_def)

lemma executeBlock_total:
  assumes "openCell (cMaze c) (cPos c)"
  shows "\<exists>r. executeBlock b c ms = Some r \<and> set (moves r) \<subseteq> set ms"
  using checkMap_total [OF assms, of ms "cFinish c"]
  by (simp add: executeBlock_def wallFollowing_subset rightWallLogic_def lineOfSight_subset
        towardExit_subset backtracking_subset social_subset randomGuesser_def)

lemma filterApplicable_total:
  assumes "openCell (cMaze c) (cPos c)"
  shows "\<exists>bs. filterApplicable c ms t = Some bs \<and> set bs \<subseteq> set t"
proof (induction t)
  case Nil
  then show ?case by simp
next
  case (Cons b t)
  from isBlockApplicable_total [OF assms, of b ms] obtain a where a: "isBlockApplicable b c ms = Some a"
    by blast
  from Cons obtain bs where "filterApplicable c ms t = Some bs" "set bs \<subseteq> set t" by blast
  with a show ?case by auto
qed

lemma outcomeOk_trans: "outcomeOk ms' out \<Longrightarrow> set ms' \<subseteq> set ms \<Longrightarrow> outcomeOk ms out"
  by (cases out) auto

lemma afterBlock_ok:
  assumes "set (moves r) \<subseteq> set ms" "2 \<le> length ms"
  shows "outcomeOk ms (afterBlock r ms es k)"
proof -
  consider "moves r = []" | "length (moves r) = 1" | "2 \<le> length (moves r)"
    by (cases "moves r") (auto simp: Suc_le_eq)
  then show ?thesis
  proof cases
    case 1
    with assms show ?thesis by (simp add: afterBlock_def)
  next
    case 2
    then have "moves r ! 0 \<in> set (moves r)" by (intro nth_mem) simp
    with assms(1) 2 show ?thesis by (auto simp: afterBlock_def Let_def)
  next
    case 3
    with assms show ?thesis by (auto simp: afterBlock_def Let_def)
  qed
qed

lemma processTier_total:
  assumes o: "openCell (cMaze c) (cPos c)" and l: "2 \<le> length ms"
  shows "\<exists>out. processTier c rnd t ms es k = Some out \<and> outcomeOk ms out"
proof -
  from filterApplicable_total [OF o, of ms t] obtain bs where bs: "filterApplicable c ms t = Some bs"
    by blast
  show ?thesis
  proof (cases "length t = 0 \<or> length bs = 0")
    case True
    with bs l show ?thesis by (auto simp: processTier_def)
  next
    case False
    let ?sel = "selectBlock (rnd k * foldl (\<lambda>sum b. sum + weight b) 0 bs) bs"
    show ?thesis
    proof (cases ?sel)
      case None
      with False bs l show ?thesis by (simp add: processTier_def Let_def)
    next
      case (Some b)
      from executeBlock_total [OF o, of b ms] obtain r where r: "executeBlock b c ms = Some r"
        "set (moves r) \<subseteq> set ms" by blast
      from afterBlock_ok [OF r(2) l] have "outcomeOk ms (afterBlock r ms es (k + 1))" .
      with False bs Some r(1) show ?thesis by (simp add: processTier_def Let_def)
    qed
  qed
qed

lemma processTiers_total:
  assumes o: "openCell (cMaze c) (cPos c)"
  shows "2 \<le> length ms \<Longrightarrow> \<exists>out. processTiers c rnd ts ms es k = Some out \<and> outcomeOk ms out"
proof (induction ts arbitrary: ms es k)
  case Nil
  then show ?case by simp
next
  case (Cons t ts)
  from processTier_total [OF o Cons.prems, of rnd t es k] obtain out where
    out: "processTier c rnd t ms es k = Some out" "outcomeOk ms out" by blast
  show ?case
  proof (cases out)
    case (Return d)
    with out show ?thesis by simp
  next
    case (Continue ms' es' k')
    with out(2) have s: "set ms' \<subseteq> set ms" "2 \<le> length ms'" by simp_all
    from Cons.IH [OF s(2), of es' k'] obtain out' where
      "processTiers c rnd ts ms' es' k' = Some out'" "outcomeOk ms' out'" by blast
    with out(1) Continue outcomeOk_trans [OF _ s(1)] show ?thesis by auto
  qed
qed

lemma pickRandom_mem: "pickRandom r ms = Some m \<Longrightarrow> m \<in> set ms"
  by (auto simp: pickRandom_def Let_def split: if_splits)

lemma pickRandom_some:
  assumes "0 \<le> r" "r < 1" "ms \<noteq> []"
  shows "\<exists>m. pickRandom r ms = Some m"
proof -
  let ?n = "real (length ms)"
  have n: "0 < ?n" using assms(3) by simp
  have "0 \<le> r * ?n" using assms(1) by simp
  then have a: "0 \<le> \<lfloor>r * ?n\<rfloor>" by simp
  have "r * ?n < ?n" using assms(2) n by simp
  then have "\<lfloor>r * ?n\<rfloor> < int (length ms)" by (simp add: floor_less_iff)
  then have "nat \<lfloor>r * ?n\<rfloor> < length ms" using a by linarith
  with a show ?thesis by (simp add: pickRandom_def Let_def)
qed

lemma forwardOptions_subset: "set (forwardOptions ld pm) \<subseteq> set pm"
  by (auto simp: forwardOptions_def split: option.splits)

lemma forwardOptions_nonempty: "pm \<noteq> [] \<Longrightarrow> forwardOptions ld pm \<noteq> []"
  by (auto simp: forwardOptions_def split: option.splits)

lemma decideNextMove_unfold:
  "decideNextMove tiers rnd c =
     (if getPossibleMoves (cPos c) (cMaze c) = [] then Some (Decision None None)
      else if length (forwardOptions (cLastDirection c) (getPossibleMoves (cPos c) (cMaze c))) = 1
        then Some (Decision (Some (forwardOptions (cLastDirection c) (getPossibleMoves (cPos c) (cMaze c)) ! 0)) None)
      else
        do {
          r \<leftarrow> processTiers c rnd tiers (forwardOptions (cLastDirection c) (getPossibleMoves (cPos c) (cMaze c))) [] 0;
          (case r of
             Return d \<Rightarrow> Some d
           | Continue currentMoves emotes k \<Rightarrow>
               Some (Decision (pickRandom (rnd k) currentMoves)
                       (combineEmotes (if length emotes = 0 then emotes @ [Dice] else emotes))))
        })"
  by (cases "cLastDirection c") (simp_all add: decideNextMove_def forwardOptions_def Let_def)

lemma decideNextMove_result:
  assumes o: "openCell (cMaze c) (cPos c)"
  shows "\<exists>d. decideNextMove tiers rnd c = Some d \<and>
           (getPossibleMoves (cPos c) (cMaze c) = [] \<longrightarrow> decidedMove d = None) \<and>
           (\<forall>m. decidedMove d = Some m \<longrightarrow>
                m \<in> set (forwardOptions (cLastDirection c) (getPossibleMoves (cPos c) (cMaze c)))) \<and>
           (randomOk rnd \<and> getPossibleMoves (cPos c) (cMaze c) \<noteq> [] \<longrightarrow> decidedMove d \<noteq> None)"
proof -
  let ?pm = "getPossibleMoves (cPos c) (cMaze c)"
  let ?fm = "forwardOptions (cLastDirection c) ?pm"
  consider "?pm = []" | "?pm \<noteq> []" "length ?fm = 1" | "?pm \<noteq> []" "length ?fm \<noteq> 1" by blast
  then show ?thesis
  proof cases
    case 1
    then show ?thesis by (simp add: decideNextMove_unfold)
  next
    case 2
    then have "?fm ! 0 \<in> set ?fm" by (intro nth_mem) simp
    with 2 show ?thesis by (simp add: decideNextMove_unfold)
  next
    case 3
    from forwardOptions_nonempty [OF 3(1), of "cLastDirection c"] 3(2) have l: "2 \<le> length ?fm"
      by (cases ?fm) (auto simp: Suc_le_eq)
    from processTiers_total [OF o l, of rnd tiers "[]" 0] obtain out where
      out: "processTiers c rnd tiers ?fm [] 0 = Some out" "outcomeOk ?fm out" by blast
    show ?thesis
    proof (cases out)
      case (Return d)
      with out 3 show ?thesis by (auto simp: decideNextMove_unfold)
    next
      case (Continue ms es k)
      with out(2) have s: "set ms \<subseteq> set ?fm" "ms \<noteq> []" by auto
      have "randomOk rnd \<longrightarrow> pickRandom (rnd k) ms \<noteq> None"
        using pickRandom_some [of "rnd k" ms] s(2) by (auto simp: randomOk_def)
      moreover have "\<forall>m. pickRandom (rnd k) ms = Some m \<longrightarrow> m \<in> set ?fm"
        using pickRandom_mem s(1) by blast
      ultimately show ?thesis using out(1) Continue 3 by (simp add: decideNextMove_unfold)
    qed
  qed
qed

lemma getPossibleMoves_mem:
  assumes "m \<in> set (getPossibleMoves p g)"
  shows "openCell g (mx m, my m) \<and> adjacent p (mx m, my m)"
proof -
  from assms have o: "0 \<le> mx m \<and> mx m < width g \<and> 0 \<le> my m \<and> my m < height g \<and>
                      cellAt (grid g) (mx m) (my m) = Some 1"
    and mem: "m \<in> set (map (\<lambda>(dx, dy, name). Move (fst p + dx) (snd p + dy) name) moveDirections)"
    by (simp_all add: getPossibleMoves_def)
  from mem obtain dx dy name where d: "(dx, dy, name) \<in> set moveDirections"
    "m = Move (fst p + dx) (snd p + dy) name" by auto
  from d(1) have "\<bar>dx\<bar> + \<bar>dy\<bar> = 1" by (auto simp: moveDirections_def)
  then have "adjacent p (mx m, my m)" by (simp add: d(2) adjacent_def)
  with o show ?thesis by (simp add: openCell_def inBounds_def isOpen_def)
qed

lemma getPossibleMoves_empty:
  "(getPossibleMoves p g = []) = (\<nexists>n. adjacent p n \<and> openCell g n)"
proof
  assume e: "getPossibleMoves p g = []"
  show "\<nexists>n. adjacent p n \<and> openCell g n"
  proof
    assume "\<exists>n. adjacent p n \<and> openCell g n"
    then obtain n where n: "adjacent p n" "openCell g n" by blast
    from n(1) obtain d where d: "d \<in> set bfsDirections" "n = (fst p + fst d, snd p + snd d)"
      unfolding adjacent_directions by blast
    from d(1) obtain name where "(fst d, snd d, name) \<in> set moveDirections"
      by (auto simp: bfsDirections_def moveDirections_def)
    then have "Move (fst p + fst d) (snd p + snd d) name \<in>
                 set (map (\<lambda>(dx, dy, name). Move (fst p + dx) (snd p + dy) name) moveDirections)"
      by force
    moreover have "0 \<le> fst p + fst d \<and> fst p + fst d < width g \<and> 0 \<le> snd p + snd d \<and>
                   snd p + snd d < height g \<and> cellAt (grid g) (fst p + fst d) (snd p + snd d) = Some 1"
      using n(2) d(2) by (simp add: openCell_def inBounds_def isOpen_def)
    ultimately have "Move (fst p + fst d) (snd p + snd d) name \<in> set (getPossibleMoves p g)"
      unfolding getPossibleMoves_def by simp
    with e show False by simp
  qed
next
  assume n: "\<nexists>n. adjacent p n \<and> openCell g n"
  show "getPossibleMoves p g = []"
  proof (rule ccontr)
    assume "getPossibleMoves p g \<noteq> []"
    then obtain m where "m \<in> set (getPossibleMoves p g)" by (cases "getPossibleMoves p g") auto
    from getPossibleMoves_mem [OF this] n show False by blast
  qed
qed

lemma getPossibleMoves_distinct: "distinct (map mdir (getPossibleMoves p g))"
proof -
  have "distinct (map mdir (map (\<lambda>(dx, dy, name). Move (fst p + dx) (snd p + dy) name) moveDirections))"
    by (simp add: moveDirections_def)
  then show ?thesis
    unfolding getPossibleMoves_def by (rule distinct_map_filter)
qed

lemma forward_exists:
  assumes "distinct (map mdir pm)" "2 \<le> length pm"
  shows "filter (\<lambda>m. mdir m \<noteq> b) pm \<noteq> []"
proof -
  from assms(2) obtain m1 m2 rest where pm: "pm = m1 # m2 # rest"
    by (cases pm; cases "tl pm") auto
  with assms(1) have "mdir m1 \<noteq> mdir m2" by auto
  then have "mdir m1 \<noteq> b \<or> mdir m2 \<noteq> b" by auto
  then show ?thesis by (auto simp: pm)
qed

lemma plus_moves:
  "getPossibleMoves (cPos plusCtx) (cMaze plusCtx) =
     [Move 1 0 DUp, Move 2 1 DRight, Move 1 2 DDown, Move 0 1 DLeft]"
  by (simp add: getPossibleMoves_def plusCtx_def moveDirections_def cellAt_def)

lemma plus_forward:
  "forwardOptions (cLastDirection plusCtx) [Move 1 0 DUp, Move 2 1 DRight, Move 1 2 DDown, Move 0 1 DLeft] =
     [Move 1 0 DUp, Move 2 1 DRight, Move 1 2 DDown]"
  by (simp add: forwardOptions_def plusCtx_def)

lemma weight_wallBlock: "weight (wallBlock w) = w"
  by (simp add: wallBlock_def)

lemma plus_wall_exec:
  "executeBlock (wallBlock w) plusCtx [Move 1 0 DUp, Move 2 1 DRight, Move 1 2 DDown] =
     Some (BlockResult [Move 1 2 DDown] (Some ArrowRight))"
  by (simp add: executeBlock_def wallBlock_def modeOr_def wallFollowingLogic_def plusCtx_def
        scoreWallFollowing_def mathMax_def)

lemma plus_wall_is_applicable:
  "isBlockApplicable (wallBlock w) plusCtx ms = Some True"
  by (simp add: isBlockApplicable_def wallBlock_def plusCtx_def)

lemma plus_wall_applicable:
  "filterApplicable plusCtx ms [wallBlock w] = Some [wallBlock w]"
  by (simp add: isBlockApplicable_def wallBlock_def plusCtx_def)

lemma processTiers_append:
  "processTiers c rnd (pre @ post) ms es k =
     (case processTiers c rnd pre ms es k of
        None \<Rightarrow> None
      | Some (Return d) \<Rightarrow> Some (Return d)
      | Some (Continue ms' es' k') \<Rightarrow> processTiers c rnd post ms' es' k')"
proof (induction pre arbitrary: ms es k)
  case Nil
  then show ?case by simp
next
  case (Cons t pre)
  show ?case
  proof (cases "processTier c rnd t ms es k")
    case None
    then show ?thesis by simp
  next
    case (Some out)
    then show ?thesis using Cons.IH by (cases out) simp_all
  qed
qed

lemma processTier_single:
  assumes "filterApplicable c ms t = Some bs" and "bs \<noteq> []"
    and "selectBlock (rnd k * foldl (\<lambda>sum b. sum + weight b) 0 bs) bs = Some b"
    and "executeBlock b c ms = Some r"
  shows "processTier c rnd t ms es k = Some (afterBlock r ms es (k + 1))"
proof -
  have "t \<noteq> []" using assms(1,2) by (cases t) auto
  with assms show ?thesis by (simp add: processTier_def Let_def)
qed

lemma foldl_zero_weights:
  "\<forall>x\<in>set bs. weight x = 0 \<Longrightarrow> foldl (\<lambda>sum b. sum + weight b) a bs = a"
  by (induction bs arbitrary: a) auto

lemma plus_ok:
  "ctxOk plusCtx" "cLastDirection plusCtx = Some DRight"
  by (simp_all add: ctxOk_def plusCtx_def wfGrid_def openCell_def inBounds_def isOpen_def cellAt_def)

lemma plus_decision:
  "decideNextMove [[wallBlock 1], [guessBlock 1]] (\<lambda>k. 1 / 2) plusCtx =
     Some (Decision (Some (Move 1 2 DDown)) (Some [ArrowRight]))"
  by (simp add: decideNextMove_unfold plus_moves plus_forward processTier_def plus_wall_is_applicable
       plus_wall_exec afterBlock_def combineEmotes_def weight_wallBlock)

lemma deadEnd_ok:
  "ctxOk deadEndCtx" "cLastDirection deadEndCtx = Some DRight"
  by (simp_all add: ctxOk_def deadEndCtx_def diagonalCtx_def wfGrid_def openCell_def inBounds_def
        isOpen_def cellAt_def)

lemma deadEnd_moves: "getPossibleMoves (cPos deadEndCtx) (cMaze deadEndCtx) = [Move 0 0 DLeft]"
  by (simp add: getPossibleMoves_def deadEndCtx_def diagonalCtx_def moveDirections_def cellAt_def)

lemma island_ok: "ctxOk islandCtx"
  by (simp add: ctxOk_def islandCtx_def diagonalCtx_def wfGrid_def openCell_def inBounds_def
        isOpen_def cellAt_def)

lemma island_moves: "getPossibleMoves (cPos islandCtx) (cMaze islandCtx) = []"
  by (simp add: getPossibleMoves_def islandCtx_def diagonalCtx_def moveDirections_def cellAt_def)

lemma half_ok: "randomOk (\<lambda>k. 1 / 2)"
  by (simp add: randomOk_def)

text \<open>
  Claim C9. In a well-formed grid with the agent on an open cell (\<open>ctxOk\<close>), for every tier
  configuration and every sequence of draws in \<open>[0, 1)\<close>, \<open>decideNextMove\<close> returns; the
  move it returns is null exactly when \<open>getPossibleMoves\<close> is empty, that is, when no cell
  next to the agent is inside the grid and open; and a move that is not null is one of
  \<open>getPossibleMoves(currentPos, maze)\<close>, so its target is inside the grid and open.
\<close>

theorem decideNextMove_null_iff_stuck:
  assumes "ctxOk c" and "randomOk rnd"
  shows "\<exists>d. decideNextMove tiers rnd c = Some d \<and>
           ((decidedMove d = None) = (getPossibleMoves (cPos c) (cMaze c) = [])) \<and>
           ((decidedMove d = None) = (\<nexists>n. adjacent (cPos c) n \<and> openCell (cMaze c) n)) \<and>
           (\<forall>m. decidedMove d = Some m \<longrightarrow>
                m \<in> set (getPossibleMoves (cPos c) (cMaze c)) \<and> openCell (cMaze c) (mx m, my m))"
proof -
  from assms(1) have o: "openCell (cMaze c) (cPos c)" by (simp add: ctxOk_def)
  from decideNextMove_result [OF o, of tiers rnd] obtain d where
    d: "decideNextMove tiers rnd c = Some d"
       "getPossibleMoves (cPos c) (cMaze c) = [] \<longrightarrow> decidedMove d = None"
       "\<forall>m. decidedMove d = Some m \<longrightarrow>
            m \<in> set (forwardOptions (cLastDirection c) (getPossibleMoves (cPos c) (cMaze c)))"
       "randomOk rnd \<and> getPossibleMoves (cPos c) (cMaze c) \<noteq> [] \<longrightarrow> decidedMove d \<noteq> None"
    by blast
  have 1: "(decidedMove d = None) = (getPossibleMoves (cPos c) (cMaze c) = [])"
    using d(2,4) assms(2) by blast
  have 2: "\<forall>m. decidedMove d = Some m \<longrightarrow>
                m \<in> set (getPossibleMoves (cPos c) (cMaze c)) \<and> openCell (cMaze c) (mx m, my m)"
    using d(3) forwardOptions_subset getPossibleMoves_mem by blast
  have 3: "(decidedMove d = None) = (\<nexists>n. adjacent (cPos c) n \<and> openCell (cMaze c) n)"
    using 1 getPossibleMoves_empty [of "cPos c" "cMaze c"] by simp
  from d(1) 1 3 2 show ?thesis by (intro exI [of _ d] conjI)
qed

text \<open>The crossing and the walled-in cell.\<close>

theorem decideNextMove_null_iff_stuck_witness:
  "ctxOk plusCtx \<and> randomOk (\<lambda>k. 1 / 2) \<and>
   decideNextMove [[wallBlock 1], [guessBlock 1]] (\<lambda>k. 1 / 2) plusCtx
     = Some (Decision (Some (Move 1 2 DDown)) (Some [ArrowRight])) \<and>
   Move 1 2 DDown \<in> set (getPossibleMoves (cPos plusCtx) (cMaze plusCtx)) \<and>
   openCell (cMaze plusCtx) (1, 2) \<and>
   ctxOk islandCtx \<and>
   getPossibleMoves (cPos islandCtx) (cMaze islandCtx) = [] \<and>
   decideNextMove [[wallBlock 1], [guessBlock 1]] (\<lambda>k. 1 / 2) islandCtx = Some (Decision None None)"
proof -
  let ?tiers = "[[wallBlock 1], [guessBlock 1]]"
  from decideNextMove_null_iff_stuck [OF plus_ok(1) half_ok, of ?tiers] plus_decision
  have 1: "Move 1 2 DDown \<in> set (getPossibleMoves (cPos plusCtx) (cMaze plusCtx)) \<and>
           openCell (cMaze plusCtx) (1, 2)" by auto
  from decideNextMove_null_iff_stuck [OF island_ok half_ok, of ?tiers] island_moves
  obtain d where d: "decideNextMove ?tiers (\<lambda>k. 1 / 2) islandCtx = Some d" "decidedMove d = None"
    by auto
  have 2: "decideNextMove ?tiers (\<lambda>k. 1 / 2) islandCtx = Some (Decision None None)"
    by (simp add: decideNextMove_unfold island_moves)
  from plus_ok(1) half_ok plus_decision 1 island_ok island_moves 2 show ?thesis by simp
qed

text \<open>
  Claim C5. In a well-formed grid with the agent on an open cell (\<open>ctxOk\<close>) and a last
  direction set,
  \<open>decideNextMove\<close> returns, for every tier configuration and every sequence of draws; with
  at least two legal moves the returned move is never the reverse of the last direction;
  and when the reverse move is the only legal move, it is the move returned.
\<close>

theorem decideNextMove_never_reverses:
  assumes "ctxOk c" and "cLastDirection c = Some ld"
  shows "\<exists>d. decideNextMove tiers rnd c = Some d \<and>
           (2 \<le> length (getPossibleMoves (cPos c) (cMaze c)) \<longrightarrow>
              (\<forall>m. decidedMove d = Some m \<longrightarrow> mdir m \<noteq> oppositeDir ld)) \<and>
           (\<forall>m. getPossibleMoves (cPos c) (cMaze c) = [m] \<and> mdir m = oppositeDir ld \<longrightarrow>
                decidedMove d = Some m)"
proof -
  let ?pm = "getPossibleMoves (cPos c) (cMaze c)"
  from assms(1) have o: "openCell (cMaze c) (cPos c)" by (simp add: ctxOk_def)
  from decideNextMove_result [OF o, of tiers rnd] obtain d where
    d: "decideNextMove tiers rnd c = Some d"
       "\<forall>m. decidedMove d = Some m \<longrightarrow> m \<in> set (forwardOptions (cLastDirection c) ?pm)"
    by blast
  have 1: "\<forall>m. decidedMove d = Some m \<longrightarrow> mdir m \<noteq> oppositeDir ld" if l: "2 \<le> length ?pm"
  proof -
    from forward_exists [OF getPossibleMoves_distinct l, of "oppositeDir ld"]
    have "forwardOptions (cLastDirection c) ?pm = filter (\<lambda>m. mdir m \<noteq> oppositeDir ld) ?pm"
      by (simp add: forwardOptions_def assms(2))
    with d(2) show ?thesis by auto
  qed
  have 2: "decidedMove d = Some m" if m: "?pm = [m]" "mdir m = oppositeDir ld" for m
  proof -
    have "forwardOptions (cLastDirection c) ?pm = [m]"
      using m by (simp add: forwardOptions_def assms(2))
    with d(1) m(1) show ?thesis by (auto simp: decideNextMove_unfold)
  qed
  from d(1) 1 2 show ?thesis by blast
qed

text \<open>The crossing, where the way back is one of four moves, and the dead end.\<close>

theorem decideNextMove_never_reverses_witness:
  "ctxOk plusCtx \<and> cLastDirection plusCtx = Some DRight \<and>
   2 \<le> length (getPossibleMoves (cPos plusCtx) (cMaze plusCtx)) \<and>
   decideNextMove [[wallBlock 1], [guessBlock 1]] (\<lambda>k. 1 / 2) plusCtx
     = Some (Decision (Some (Move 1 2 DDown)) (Some [ArrowRight])) \<and>
   mdir (Move 1 2 DDown) \<noteq> oppositeDir DRight \<and>
   ctxOk deadEndCtx \<and> cLastDirection deadEndCtx = Some DRight \<and>
   getPossibleMoves (cPos deadEndCtx) (cMaze deadEndCtx) = [Move 0 0 DLeft] \<and>
   mdir (Move 0 0 DLeft) = oppositeDir DRight \<and>
   decideNextMove [[wallBlock 1], [guessBlock 1]] (\<lambda>k. 1 / 2) deadEndCtx
     = Some (Decision (Some (Move 0 0 DLeft)) None)"
proof -
  let ?tiers = "[[wallBlock 1], [guessBlock 1]]"
  have l: "2 \<le> length (getPossibleMoves (cPos plusCtx) (cMaze plusCtx))" by (simp add: plus_moves)
  from decideNextMove_never_reverses [OF plus_ok, of ?tiers "\<lambda>k. 1 / 2"] plus_decision l
  have 1: "mdir (Move 1 2 DDown) \<noteq> oppositeDir DRight" by auto
  from decideNextMove_never_reverses [OF deadEnd_ok, of ?tiers "\<lambda>k. 1 / 2"] deadEnd_moves
  obtain d where d: "decideNextMove ?tiers (\<lambda>k. 1 / 2) deadEndCtx = Some d"
    "decidedMove d = Some (Move 0 0 DLeft)" by auto
  have "decideNextMove ?tiers (\<lambda>k. 1 / 2) deadEndCtx = Some (Decision (Some (Move 0 0 DLeft)) None)"
    by (simp add: decideNextMove_unfold deadEnd_moves forwardOptions_def deadEnd_ok(2))
  with plus_ok deadEnd_ok l plus_decision 1 deadEnd_moves show ?thesis by simp
qed

text \<open>
  Claim C6. Let the tiers \<open>pre\<close> leave the candidates \<open>ms'\<close> and the emotes \<open>es'\<close>, and let the
  block selected in the next tier \<open>t\<close> narrow the candidates to the single move \<open>m\<close>. Then
  the loop over the tiers ends there with \<open>m\<close> and the combined emotes gathered so far
  (with the block's own thought), whatever tiers \<open>post\<close> follow: they are not evaluated and
  do not affect the result. So does \<open>decideNextMove\<close>, when the loop started from its
  candidates.
\<close>

theorem single_move_ends_decision:
  assumes "processTiers c rnd pre ms es k = Some (Continue ms' es' k')"
    and "filterApplicable c ms' t = Some bs" and "bs \<noteq> []"
    and "selectBlock (rnd k' * foldl (\<lambda>sum b. sum + weight b) 0 bs) bs = Some b"
    and "executeBlock b c ms' = Some r" and "moves r = [m]"
  shows "processTiers c rnd (pre @ t # post) ms es k =
           Some (Return (Decision (Some m)
                   (combineEmotes (case thought r of Some e \<Rightarrow> es' @ [e] | None \<Rightarrow> es')))) \<and>
         (ms = forwardOptions (cLastDirection c) (getPossibleMoves (cPos c) (cMaze c)) \<and>
          2 \<le> length ms \<and> es = [] \<and> k = 0 \<longrightarrow>
            decideNextMove (pre @ t # post) rnd c =
              Some (Decision (Some m)
                     (combineEmotes (case thought r of Some e \<Rightarrow> es' @ [e] | None \<Rightarrow> es'))))"
proof -
  let ?d = "Decision (Some m) (combineEmotes (case thought r of Some e \<Rightarrow> es' @ [e] | None \<Rightarrow> es'))"
  have a: "afterBlock r ms' es' (k' + 1) = Return ?d"
    using assms(6) by (simp add: afterBlock_def Let_def)
  have "processTier c rnd t ms' es' k' = Some (Return ?d)"
    using processTier_single [of c ms' t bs rnd k' b r es'] assms(2,3,4,5) a by simp
  then have 1: "processTiers c rnd (pre @ t # post) ms es k = Some (Return ?d)"
    by (simp add: processTiers_append assms(1))
  have "decideNextMove (pre @ t # post) rnd c = Some ?d"
    if "ms = forwardOptions (cLastDirection c) (getPossibleMoves (cPos c) (cMaze c))"
       "2 \<le> length ms" "es = []" "k = 0"
  proof -
    from that(1,2) have "getPossibleMoves (cPos c) (cMaze c) \<noteq> []"
      by (auto simp: forwardOptions_def split: option.splits if_splits)
    with that 1 show ?thesis by (simp add: decideNextMove_unfold)
  qed
  with 1 show ?thesis by blast
qed

text \<open>
  At the crossing the WallFollowing block of the first tier leaves one move; the decision
  is the same with two further tiers and with none.
\<close>

theorem single_move_ends_decision_witness:
  "processTiers plusCtx (\<lambda>k. 1 / 2) [] [Move 1 0 DUp, Move 2 1 DRight, Move 1 2 DDown] [] 0
     = Some (Continue [Move 1 0 DUp, Move 2 1 DRight, Move 1 2 DDown] [] 0) \<and>
   filterApplicable plusCtx [Move 1 0 DUp, Move 2 1 DRight, Move 1 2 DDown] [wallBlock 1] = Some [wallBlock 1] \<and>
   selectBlock (1 / 2 * foldl (\<lambda>sum b. sum + weight b) 0 [wallBlock 1]) [wallBlock 1] = Some (wallBlock 1) \<and>
   executeBlock (wallBlock 1) plusCtx [Move 1 0 DUp, Move 2 1 DRight, Move 1 2 DDown]
     = Some (BlockResult [Move 1 2 DDown] (Some ArrowRight)) \<and>
   [Move 1 0 DUp, Move 2 1 DRight, Move 1 2 DDown]
     = forwardOptions (cLastDirection plusCtx) (getPossibleMoves (cPos plusCtx) (cMaze plusCtx)) \<and>
   decideNextMove [[wallBlock 1], [guessBlock 1], [guessBlock 5]] (\<lambda>k. 1 / 2) plusCtx
     = Some (Decision (Some (Move 1 2 DDown)) (Some [ArrowRight])) \<and>
   decideNextMove [[wallBlock 1]] (\<lambda>k. 1 / 2) plusCtx
     = Some (Decision (Some (Move 1 2 DDown)) (Some [ArrowRight]))"
proof -
  let ?ms = "[Move 1 0 DUp, Move 2 1 DRight, Move 1 2 DDown]"
  let ?r = "BlockResult [Move 1 2 DDown] (Some ArrowRight)"
  have p: "processTiers plusCtx (\<lambda>k. 1 / 2) [] ?ms [] 0 = Some (Continue ?ms [] 0)" by simp
  have a: "filterApplicable plusCtx ?ms [wallBlock 1] = Some [wallBlock 1]" by (rule plus_wall_applicable)
  have n: "[wallBlock 1] \<noteq> []" by simp
  have s: "selectBlock ((\<lambda>k. 1 / 2) (0::nat) * foldl (\<lambda>sum b. sum + weight b) 0 [wallBlock 1]) [wallBlock 1]
             = Some (wallBlock 1)" by (simp add: weight_wallBlock)
  have e: "executeBlock (wallBlock 1) plusCtx ?ms = Some ?r" by (rule plus_wall_exec)
  have m: "moves ?r = [Move 1 2 DDown]" by simp
  have f: "?ms = forwardOptions (cLastDirection plusCtx) (getPossibleMoves (cPos plusCtx) (cMaze plusCtx))"
    by (simp add: plus_moves plus_forward)
  note th = single_move_ends_decision [of plusCtx "\<lambda>k. 1 / 2" "[]" ?ms "[]" 0 ?ms "[]" 0
      "[wallBlock 1]" "[wallBlock 1]" "wallBlock 1" ?r "Move 1 2 DDown", OF p a n s e m]
  have pre: "?ms = forwardOptions (cLastDirection plusCtx) (getPossibleMoves (cPos plusCtx) (cMaze plusCtx)) \<and>
             2 \<le> length ?ms \<and> ([]::emote list) = [] \<and> (0::nat) = 0"
    by (intro conjI f) simp_all
  from th [of "[[guessBlock 1], [guessBlock 5]]", THEN conjunct2, THEN mp, OF pre]
  have 1: "decideNextMove [[wallBlock 1], [guessBlock 1], [guessBlock 5]] (\<lambda>k. 1 / 2) plusCtx
     = Some (Decision (Some (Move 1 2 DDown)) (Some [ArrowRight]))"
    by (simp add: combineEmotes_def)
  from th [of "[]", THEN conjunct2, THEN mp, OF pre]
  have 2: "decideNextMove [[wallBlock 1]] (\<lambda>k. 1 / 2) plusCtx
     = Some (Decision (Some (Move 1 2 DDown)) (Some [ArrowRight]))"
    by (simp add: combineEmotes_def)
  have s': "selectBlock (1 / 2 * foldl (\<lambda>sum b. sum + weight b) 0 [wallBlock 1]) [wallBlock 1] = Some (wallBlock 1)"
    using s by simp
  from p a s' e f 1 2 show ?thesis by (intro conjI)
qed

text \<open>
  Claim C1 as stated fails: at the crossing, a tier holding only a WallFollowing block of
  weight zero executes that block, which narrows the three candidates to the right turn
  and ends the decision with the arrow as its thought; the tier below is never reached.
\<close>

theorem zero_weight_tier_counterexample:
  "filterApplicable plusCtx [Move 1 0 DUp, Move 2 1 DRight, Move 1 2 DDown] [wallBlock 0] = Some [wallBlock 0] \<and>
   weight (wallBlock 0) = 0 \<and>
   processTier plusCtx (\<lambda>k. 1 / 2) [wallBlock 0] [Move 1 0 DUp, Move 2 1 DRight, Move 1 2 DDown] [] 0
     = Some (Return (Decision (Some (Move 1 2 DDown)) (Some [ArrowRight]))) \<and>
   decideNextMove [[wallBlock 0], [guessBlock 1]] (\<lambda>k. 1 / 2) plusCtx
     = Some (Decision (Some (Move 1 2 DDown)) (Some [ArrowRight]))"
  by (simp add: decideNextMove_unfold plus_moves plus_forward processTier_def plus_wall_is_applicable
       plus_wall_exec afterBlock_def combineEmotes_def weight_wallBlock)

text \<open>
  Claim C1, amended. In a tier whose applicable blocks all have weight zero, the first
  applicable block in tier order is selected, whatever the draw, and executed like any
  selected block: its result narrows the candidates and adds its thought. A tier is
  passed over, with the candidates and the emotes unchanged, when no block of it is
  applicable.
\<close>

theorem zero_weight_tier_runs_first_applicable:
  "(filterApplicable c ms t = Some (b # bs) \<and> (\<forall>x\<in>set (b # bs). weight x = 0) \<longrightarrow>
      processTier c rnd t ms es k =
        executeBlock b c ms \<bind> (\<lambda>result. Some (afterBlock result ms es (k + 1)))) \<and>
   (filterApplicable c ms t = Some [] \<longrightarrow> processTier c rnd t ms es k = Some (Continue ms es k))"
proof (intro conjI impI)
  assume a: "filterApplicable c ms t = Some (b # bs) \<and> (\<forall>x\<in>set (b # bs). weight x = 0)"
  then have t: "t \<noteq> []" by (cases t) auto
  from a have wb: "weight b = 0" by simp
  from a have fz: "foldl (\<lambda>sum b. sum + weight b) 0 bs = 0"
    using foldl_zero_weights [of bs 0] by simp
  show "processTier c rnd t ms es k =
          executeBlock b c ms \<bind> (\<lambda>result. Some (afterBlock result ms es (k + 1)))"
    using a t by (simp add: processTier_def Let_def wb fz)
next
  assume "filterApplicable c ms t = Some []"
  then show "processTier c rnd t ms es k = Some (Continue ms es k)"
    by (simp add: processTier_def)
qed

text \<open>The same tier at the crossing, and an empty tier.\<close>

theorem zero_weight_tier_runs_first_applicable_witness:
  "filterApplicable plusCtx [Move 1 0 DUp, Move 2 1 DRight, Move 1 2 DDown] [wallBlock 0] = Some [wallBlock 0] \<and>
   weight (wallBlock 0) = 0 \<and>
   executeBlock (wallBlock 0) plusCtx [Move 1 0 DUp, Move 2 1 DRight, Move 1 2 DDown]
     = Some (BlockResult [Move 1 2 DDown] (Some ArrowRight)) \<and>
   processTier plusCtx (\<lambda>k. 1 / 2) [wallBlock 0] [Move 1 0 DUp, Move 2 1 DRight, Move 1 2 DDown] [] 3
     = Some (Return (Decision (Some (Move 1 2 DDown)) (Some [ArrowRight]))) \<and>
   filterApplicable plusCtx [Move 1 0 DUp, Move 2 1 DRight, Move 1 2 DDown] [] = Some [] \<and>
   processTier plusCtx (\<lambda>k. 1 / 2) [] [Move 1 0 DUp, Move 2 1 DRight, Move 1 2 DDown] [] 3
     = Some (Continue [Move 1 0 DUp, Move 2 1 DRight, Move 1 2 DDown] [] 3)"
proof -
  let ?ms = "[Move 1 0 DUp, Move 2 1 DRight, Move 1 2 DDown]"
  have a: "filterApplicable plusCtx ?ms [wallBlock 0] = Some [wallBlock 0]"
    by (rule plus_wall_applicable)
  have w: "\<forall>x\<in>set [wallBlock 0]. weight x = 0" by (simp add: weight_wallBlock)
  have e: "filterApplicable plusCtx ?ms [] = Some []" by simp
  note th = zero_weight_tier_runs_first_applicable
  from th [of plusCtx ?ms "[wallBlock 0]" "wallBlock 0" "[]" "\<lambda>k. 1 / 2" "[]" 3] a w
  have 1: "processTier plusCtx (\<lambda>k. 1 / 2) [wallBlock 0] ?ms [] 3
             = Some (Return (Decision (Some (Move 1 2 DDown)) (Some [ArrowRight])))"
    by (simp add: plus_wall_exec afterBlock_def combineEmotes_def)
  from th [of plusCtx ?ms "[]" "wallBlock 0" "[]" "\<lambda>k. 1 / 2" "[]" 3] e
  have 2: "processTier plusCtx (\<lambda>k. 1 / 2) [] ?ms [] 3 = Some (Continue ?ms [] 3)"
    by simp
  from a 1 2 e show ?thesis by (simp add: weight_wallBlock plus_wall_exec)
qed

end
